theory Spec2Isabelle
  imports Complex_Main "HOL-Library.Sublist" "HOL-Library.Multiset"
    "HOL-Library.List_Lexorder" "HOL-Library.Char_ord"
begin

section \<open>The transport layer: \<open>backend.py\<close>\<close>

subsection \<open>JSON values and Python dictionaries\<close>

text \<open>
  The request body arrives as a Python \<open>dict\<close> decoded from JSON. A JSON value is
  \<open>None\<close>, a boolean, a number, a string, a list or a dictionary with string keys.
  A dictionary is kept as an association list in insertion order (Python dictionaries
  iterate in insertion order, and the output validation loop iterates over one).
\<close>

datatype json =
  JNull
  | JBool bool
  | JNum rat
  | JStr string
  | JArr "json list"
  | JObj "(string \<times> json) list"

type_synonym dict = "(string \<times> json) list"

text \<open>\<open>d.get(key)\<close>: the value stored under the key, \<open>None\<close> where the key is missing.\<close>

definition dict_get :: "dict \<Rightarrow> string \<Rightarrow> json" where
  "dict_get d key = (case map_of d key of None \<Rightarrow> JNull | Some v \<Rightarrow> v)"

subsection \<open>Exceptions\<close>

text \<open>
  \<open>HTTPException status detail\<close> is FastAPI's exception, \<open>ValidationError\<close> and
  \<open>SchemaError\<close> are the two exceptions of \<open>jsonschema.validate\<close>, and \<open>Raised\<close>
  stands for any other exception, which can only come out of an algorithm function.
\<close>

datatype exn =
  HTTPException nat string
  | ValidationError
  | SchemaError
  | Raised string

subsection \<open>What the module imports\<close>

text \<open>
  \<open>backend.py\<close> loads \<open>input_schema.json\<close> and \<open>output_schema.json\<close> at import time, calls
  \<open>jsonschema.validate\<close> and calls functions of the module \<open>algorithms\<close> (imported as
  \<open>alg\<close>). None of these is part of the sources at hand, so they are parameters of the
  model:
  \<^item> the two schemas are JSON documents;
  \<^item> \<open>check_schema\<close> says whether a schema is itself well-formed, and
    \<open>is_valid instance schema\<close> whether an instance has no error against a schema;
  \<^item> \<open>alg name args\<close> is the outcome of calling the attribute \<open>name\<close> of the module
    \<open>algorithms\<close> on the positional arguments \<open>args\<close>: the value it returns, or the
    exception it raises.
\<close>

record env =
  input_schema :: json
  output_schema :: json
  check_schema :: "json \<Rightarrow> bool"
  is_valid :: "json \<Rightarrow> json \<Rightarrow> bool"
  alg :: "string \<Rightarrow> json list \<Rightarrow> exn + json"

text \<open>
  \<open>jsonschema.validate(instance, schema)\<close> first checks the schema and raises
  \<open>SchemaError\<close> when it is malformed, then raises \<open>ValidationError\<close> when the instance
  has an error, and returns \<open>None\<close> otherwise.
\<close>

definition validate :: "env \<Rightarrow> json \<Rightarrow> json \<Rightarrow> exn + unit" where
  "validate e inst schema =
     (if \<not> check_schema e schema then Inl SchemaError
      else if is_valid e inst schema then Inr ()
      else Inl ValidationError)"

subsection \<open>Computations that call algorithm functions\<close>

text \<open>
  To speak about which algorithm functions a request invokes, the model threads a log of
  the calls made so far: a computation takes the log and returns its outcome (a value or
  the exception raised) with the extended log.
\<close>

type_synonym invocation = "string \<times> json list"

type_synonym 'a comp = "invocation list \<Rightarrow> (exn + 'a) \<times> invocation list"

definition return_val :: "'a \<Rightarrow> 'a comp" where
  "return_val x tr = (Inr x, tr)"

definition raise_exn :: "exn \<Rightarrow> 'a comp" where
  "raise_exn err tr = (Inl err, tr)"

definition bind :: "'a comp \<Rightarrow> ('a \<Rightarrow> 'b comp) \<Rightarrow> 'b comp" where
  "bind m f tr = (case m tr of (Inl err, tr') \<Rightarrow> (Inl err, tr') | (Inr x, tr') \<Rightarrow> f x tr')"

definition invoke :: "env \<Rightarrow> string \<Rightarrow> json list \<Rightarrow> json comp" where
  "invoke e name args tr = (alg e name args, tr @ [(name, args)])"

subsection \<open>\<open>schedule_jobs\<close>\<close>

text \<open>
  The loop \<open>for key, value in response.items(): validate(instance=value, schema=output_schema)\<close>:
  it stops at the first exception.
\<close>

fun validate_outputs :: "env \<Rightarrow> dict \<Rightarrow> exn + unit" where
  "validate_outputs e [] = Inr ()"
| "validate_outputs e ((key, v) # rest) =
     (case validate e v (output_schema e) of
        Inl err \<Rightarrow> Inl err
      | Inr _ \<Rightarrow> validate_outputs e rest)"

text \<open>
  The second \<open>try\<close> block: a \<open>ValidationError\<close> of the loop becomes
  \<open>HTTPException(500, "Invalid Output Schema")\<close>, any other exception propagates.
\<close>

definition check_response :: "env \<Rightarrow> dict \<Rightarrow> dict comp" where
  "check_response e response =
     (case validate_outputs e response of
        Inl ValidationError \<Rightarrow> raise_exn (HTTPException 500 ''Invalid Output Schema'')
      | Inl err \<Rightarrow> raise_exn err
      | Inr _ \<Rightarrow> return_val response)"

text \<open>
  Lines 89 to 116: the two \<open>data.get\<close>, the five calls in the order of the source, the
  response dictionary with its keys in the order of the source, and the output check.
\<close>

definition run_algorithms :: "env \<Rightarrow> dict \<Rightarrow> dict comp" where
  "run_algorithms e data =
     (let application_data = dict_get data ''application'';
          platform_data = dict_get data ''platform''
      in
        bind (invoke e ''ldf_single_node'' [application_data]) (\<lambda>ldf_single_node.
        bind (invoke e ''edf_single_node'' [application_data]) (\<lambda>edfsingle_node.
        bind (invoke e ''edf_multinode_no_delay'' [application_data, platform_data]) (\<lambda>edf_multinode_no_delay.
        bind (invoke e ''ldf_multinode_no_delay'' [application_data, platform_data]) (\<lambda>ldf_multinode_no_delay.
        bind (invoke e ''ll_multinode_no_delay'' [application_data, platform_data]) (\<lambda>ll_multinode_no_delay.
          check_response e
            [(''edfsingle_node'', edfsingle_node),
             (''ldf_single_node'', ldf_single_node),
             (''edf_multinode_no_delay'', edf_multinode_no_delay),
             (''ldf_multinode_no_delay'', ldf_multinode_no_delay),
             (''ll_multinode_no_delay'', ll_multinode_no_delay)]))))))"

text \<open>
  The whole handler. The first \<open>try\<close> block turns a \<open>ValidationError\<close> of the input into
  \<open>HTTPException(400, "Invalid Input schema")\<close>; any other exception of \<open>validate\<close>
  propagates. The result is the outcome together with the log of the algorithm calls
  made, starting from the empty log. The \<open>print\<close> calls write to standard output only and
  are left out; algorithm results are JSON values, so \<open>json.dumps\<close> does not raise.
\<close>

definition schedule_jobs :: "env \<Rightarrow> dict \<Rightarrow> (exn + dict) \<times> invocation list" where
  "schedule_jobs e data =
     (case validate e (JObj data) (input_schema e) of
        Inl ValidationError \<Rightarrow> raise_exn (HTTPException 400 ''Invalid Input schema'') []
      | Inl err \<Rightarrow> raise_exn err []
      | Inr _ \<Rightarrow> run_algorithms e data [])"

text \<open>The five calls a request makes when every call returns, in order.\<close>

definition five_calls :: "dict \<Rightarrow> invocation list" where
  "five_calls data =
     [(''ldf_single_node'', [dict_get data ''application'']),
      (''edf_single_node'', [dict_get data ''application'']),
      (''edf_multinode_no_delay'', [dict_get data ''application'', dict_get data ''platform'']),
      (''ldf_multinode_no_delay'', [dict_get data ''application'', dict_get data ''platform'']),
      (''ll_multinode_no_delay'', [dict_get data ''application'', dict_get data ''platform''])]"

subsection \<open>A concrete environment and request\<close>

text \<open>
  An environment whose schemas accept every instance and whose algorithm functions return
  a list holding their own name, and a request with both keys.
\<close>

definition demo_env :: env where
  "demo_env =
     \<lparr> input_schema = JObj [], output_schema = JObj [],
       check_schema = (\<lambda>s. True), is_valid = (\<lambda>i s. True),
       alg = (\<lambda>name args. Inr (JArr [JStr name])) \<rparr>"

definition demo_request :: dict where
  "demo_request = [(''application'', JObj [(''jobs'', JArr [])]), (''platform'', JObj [(''nodes'', JArr [])])]"

text \<open>
  A second environment, whose schemas refuse the empty request and the result of
  \<open>ll_multinode_no_delay\<close>.
\<close>

definition picky_env :: env where
  "picky_env =
     \<lparr> input_schema = JObj [], output_schema = JObj [],
       check_schema = (\<lambda>s. True),
       is_valid = (\<lambda>inst s. inst \<noteq> JObj [] \<and> inst \<noteq> JArr [JStr ''ll_multinode_no_delay'']),
       alg = (\<lambda>name args. Inr (JArr [JStr name])) \<rparr>"

text \<open>A name that speaks of rate-monotonic scheduling.\<close>

definition mentions_rms :: "string \<Rightarrow> bool" where
  "mentions_rms name \<longleftrightarrow>
     sublist ''rms'' name \<or> sublist ''RMS'' name \<or> sublist ''rate_monotonic'' name"

text \<open>What \<open>demo_env\<close> answers to \<open>demo_request\<close>.\<close>

definition demo_response :: dict where
  "demo_response =
     [(''edfsingle_node'', JArr [JStr ''edf_single_node'']),
      (''ldf_single_node'', JArr [JStr ''ldf_single_node'']),
      (''edf_multinode_no_delay'', JArr [JStr ''edf_multinode_no_delay'']),
      (''ldf_multinode_no_delay'', JArr [JStr ''ldf_multinode_no_delay'']),
      (''ll_multinode_no_delay'', JArr [JStr ''ll_multinode_no_delay''])]"


text \<open>
  The names of the algorithm functions the handler calls, in the order of the calls, and
  the keys of its response, in the order of the dictionary literal.
\<close>

definition algorithm_names :: "string list" where
  "algorithm_names = [''ldf_single_node'', ''edf_single_node'', ''edf_multinode_no_delay'',
         ''ldf_multinode_no_delay'', ''ll_multinode_no_delay'']"

definition response_keys :: "string list" where
  "response_keys = [''edfsingle_node'', ''ldf_single_node'', ''edf_multinode_no_delay'',
         ''ldf_multinode_no_delay'', ''ll_multinode_no_delay'']"

text \<open>
  The algorithm function whose result the handler stores under a key of the response:
  the function of the same name, except that the result of \<open>edf_single_node\<close> is stored
  under \<open>edfsingle_node\<close>.
\<close>

definition algorithm_of_key :: "string \<Rightarrow> string" where
  "algorithm_of_key key = (if key = ''edfsingle_node'' then ''edf_single_node'' else key)"

section \<open>The scheduling core, from its specification\<close>

text \<open>
  \<open>backend.py\<close> imports the module \<open>algorithms\<close>, which is not among the sources at hand.
  What follows models its data and its schedulers from the specification (sections 3, 4
  and 7); each definition says which sentences it follows. Times are integers. Job
  identifiers are of any linearly ordered type, since ties are broken by the lowest
  identifier.
\<close>

subsection \<open>Jobs, schedules and failures\<close>

text \<open>
  Modelled from the spec: the Job of the data model (section 3), which the missing module
  \<open>algorithms\<close> builds from the application data. The fields are the identifier, the
  execution time C, the optional period T, the deadline D, the arrival time, and the
  identifiers of the predecessors.
\<close>

record 'i job =
  job_id :: 'i
  execution_time :: int
  period :: "int option"
  deadline :: int
  arrival :: int
  dependencies :: "'i list"

text \<open>
  Modelled from the spec: the Schedule / Result of the data model (section 3), the value
  the missing algorithm functions return: for every node, in node order, its sequence of
  intervals \<open>(job_id, start_time, finish_time)\<close>.
\<close>

type_synonym 'i interval = "'i \<times> int \<times> int"

type_synonym 'i schedule = "'i interval list list"

text \<open>
  Modelled from the spec: the fatal failures of the error taxonomy (section 7) of the
  missing module.
\<close>

datatype failure = CyclicDependency | UnknownReference | InvalidTiming

subsection \<open>The job graph validator\<close>

text \<open>
  Modelled from the spec: the precedence edges of a job set (sections 3 and 4.1), which the
  missing validator reads off the dependencies: an edge leads from a predecessor to the job
  that names it.
\<close>

definition edges :: "'i job list \<Rightarrow> ('i \<times> 'i) list" where
  "edges js = concat (map (\<lambda>j. map (\<lambda>p. (p, job_id j)) (dependencies j)) js)"

text \<open>
  Modelled from the spec: the three checks of the missing job graph validator (section
  4.1). \<open>CyclicDependency\<close>: a cycle exists, that is, some job reaches itself along one or
  more edges. \<open>UnknownReference\<close>: an edge points to an identifier that no job has.
  \<open>InvalidTiming\<close>: a non-positive execution time, or a deadline before the arrival.
\<close>

definition has_cycle :: "'i job list \<Rightarrow> bool" where
  "has_cycle js \<longleftrightarrow> (\<exists>i \<in> set (map job_id js). (i, i) \<in> (set (edges js))\<^sup>+)"

definition unknown_reference :: "'i job list \<Rightarrow> bool" where
  "unknown_reference js \<longleftrightarrow> (\<exists>e \<in> set (edges js). fst e \<notin> set (map job_id js))"

definition invalid_timing :: "'i job list \<Rightarrow> bool" where
  "invalid_timing js \<longleftrightarrow> (\<exists>j \<in> set js. execution_time j \<le> 0 \<or> deadline j < arrival j)"

text \<open>
  Modelled from the spec: the missing job graph validator (section 4.1). It returns the
  validated job model or fails with the first failure that applies, in the order in which
  the specification lists them.
\<close>

definition validate_model :: "'i job list \<Rightarrow> failure + 'i job list" where
  "validate_model js =
     (if has_cycle js then Inl CyclicDependency
      else if unknown_reference js then Inl UnknownReference
      else if invalid_timing js then Inl InvalidTiming
      else Inr js)"

text \<open>
  Modelled from the spec: the propagation policy of the missing core (section 7). Model
  errors are detected once, during validation, and abort the whole computation before any
  algorithm runs; otherwise the scheduler is run on the validated model.
\<close>

definition engine :: "('i job list \<Rightarrow> 'r) \<Rightarrow> 'i job list \<Rightarrow> failure + 'r" where
  "engine scheduler js =
     (case validate_model js of Inl f \<Rightarrow> Inl f | Inr model \<Rightarrow> Inr (scheduler model))"

text \<open>
  A walk along edges from \<open>x\<close> through the intermediate identifiers \<open>zs\<close> to \<open>y\<close>. The
  dependency edges contain a cycle when some identifier has a walk to itself.
\<close>

fun dependency_walk :: "('i \<times> 'i) list \<Rightarrow> 'i \<Rightarrow> 'i list \<Rightarrow> 'i \<Rightarrow> bool" where
  "dependency_walk es x [] y \<longleftrightarrow> (x, y) \<in> set es"
| "dependency_walk es x (z # zs) y \<longleftrightarrow> (x, z) \<in> set es \<and> dependency_walk es z zs y"

subsection \<open>Latest deadline first: the priority assigner\<close>

text \<open>
  Modelled from the spec: the ready set of the missing LDF priority assigner (section 4.2),
  "the set of jobs whose successors have all already been assigned a priority": no job
  still unassigned depends on the job.
\<close>

definition successors_assigned :: "'i job list \<Rightarrow> 'i job \<Rightarrow> bool" where
  "successors_assigned unassigned j \<longleftrightarrow>
     (\<forall>k \<in> set unassigned. job_id j \<notin> set (dependencies k))"

text \<open>
  Modelled from the spec: the choice of the missing LDF priority assigner (section 4.2),
  "the job with the latest deadline (tie-break: lowest id)": of two jobs, the one to
  prefer.
\<close>

definition later_deadline :: "('i::linorder) job \<Rightarrow> 'i job \<Rightarrow> 'i job" where
  "later_deadline j best =
     (if deadline best < deadline j \<or> (deadline j = deadline best \<and> job_id j < job_id best)
      then j else best)"

text \<open>
  Modelled from the spec: one pick of the missing LDF priority assigner (section 4.2): among
  the ready set, the job with the latest deadline, the lowest identifier breaking ties;
  none when the ready set is empty.
\<close>

definition ldf_pick :: "('i::linorder) job list \<Rightarrow> 'i job option" where
  "ldf_pick unassigned =
     (case filter (successors_assigned unassigned) unassigned of
        [] \<Rightarrow> None
      | r # rs \<Rightarrow> Some (fold later_deadline rs r))"

text \<open>
  Modelled from the spec: the loop of the missing LDF priority assigner (section 4.2). The
  picked job gets the lowest remaining priority, so it runs last among the jobs still
  unassigned: it is put in front of the jobs assigned so far, and the list that results is
  the execution order (the priority order, reversed). The loop ends when no job can be
  picked.
\<close>

function ldf_assign :: "('i::linorder) job list \<Rightarrow> 'i job list \<Rightarrow> 'i job list" where
  "ldf_assign unassigned assigned =
     (case ldf_pick unassigned of
        None \<Rightarrow> assigned
      | Some j \<Rightarrow> ldf_assign (remove1 j unassigned) (j # assigned))"
  by pat_completeness auto

text \<open>
  Modelled from the spec: the missing LDF priority assigner (section 4.2), started with
  every job unassigned.
\<close>

definition ldf_priority :: "('i::linorder) job list \<Rightarrow> 'i job list" where
  "ldf_priority js = ldf_assign js []"

text \<open>
  Modelled from the spec: the same assigner (section 4.2) as a relation between a job set
  and an execution order, one rule for each sentence: a run may pick any job that is in
  the ready set and has the latest deadline there, the lowest identifier among those with
  that deadline; it continues until all jobs are assigned. Written this way, a run that
  had a choice would show as two different orders for one job set.
\<close>

definition latest_ready :: "('i::linorder) job list \<Rightarrow> 'i job \<Rightarrow> bool" where
  "latest_ready unassigned j \<longleftrightarrow>
     j \<in> set unassigned \<and> successors_assigned unassigned j \<and>
     (\<forall>k \<in> set unassigned. successors_assigned unassigned k \<longrightarrow>
        deadline k < deadline j \<or> (deadline k = deadline j \<and> job_id j \<le> job_id k))"

inductive ldf_run :: "('i::linorder) job list \<Rightarrow> 'i job list \<Rightarrow> 'i job list \<Rightarrow> bool" where
  all_assigned: "ldf_run [] assigned assigned"
| assign_next: "latest_ready unassigned j \<Longrightarrow>
     ldf_run (remove1 j unassigned) (j # assigned) order \<Longrightarrow>
     ldf_run unassigned assigned order"

subsection \<open>Latest deadline first on a single node\<close>

text \<open>
  Modelled from the spec: the missing single-node scheduler that consumes the static LDF
  order (section 4.2): "jobs execute back-to-back in priority order (non-preemptive), each
  starting at max(arrival, predecessor finish times, previous job's finish time)". The
  arguments are the jobs still to run, the finish time of the previous job if there is
  one, and the finish times of the jobs run so far.
\<close>

fun back_to_back ::
  "'i job list \<Rightarrow> int option \<Rightarrow> ('i \<Rightarrow> int option) \<Rightarrow> 'i interval list" where
  "back_to_back [] previous finish = []"
| "back_to_back (j # rest) previous finish =
     (let bounds = (case previous of None \<Rightarrow> [] | Some f \<Rightarrow> [f]) @
                   concat (map (\<lambda>p. case finish p of None \<Rightarrow> [] | Some f \<Rightarrow> [f]) (dependencies j));
          start = fold max bounds (arrival j);
          stop = start + execution_time j
      in (job_id j, start, stop) # back_to_back rest (Some stop) (finish(job_id j \<mapsto> stop)))"

text \<open>
  Modelled from the spec: the missing algorithm function \<open>ldf_single_node\<close> (sections 4.2
  and 6): the LDF order, run back to back on the one node.
\<close>

definition ldf_single_node :: "('i::linorder) job list \<Rightarrow> 'i schedule" where
  "ldf_single_node js = [back_to_back (ldf_priority js) None Map.empty]"

subsection \<open>The event-driven simulation\<close>

text \<open>
  Modelled from the spec: the working state of the missing simulation (section 3,
  lifecycles): the current time, the remaining-time counters, the job each node runs, the
  per-node availability clocks (the time at which a node last became idle), and the
  intervals recorded so far on each node, latest first.
\<close>

record 'i sim =
  now :: int
  remaining :: "'i \<Rightarrow> int"
  running :: "nat \<Rightarrow> 'i option"
  available :: "nat \<Rightarrow> int"
  timeline :: "nat \<Rightarrow> 'i interval list"

text \<open>
  Modelled from the spec: the readiness rule of the missing simulation (section 4.3): the
  jobs "that have arrived, have all predecessors complete, and are not finished".
\<close>

definition is_ready :: "'i sim \<Rightarrow> 'i job \<Rightarrow> bool" where
  "is_ready s j \<longleftrightarrow>
     arrival j \<le> now s \<and> 0 < remaining s (job_id j) \<and>
     (\<forall>p \<in> set (dependencies j). remaining s p \<le> 0)"

text \<open>
  Modelled from the spec: the priority rule shared by the missing dynamic schedulers
  (sections 4.3 to 4.5): the smallest key first, "ties broken by lowest id". Both sorts
  are stable, so jobs with equal keys stay in the order of their identifiers.
\<close>

definition by_priority :: "(('i::linorder) job \<Rightarrow> int) \<Rightarrow> 'i job list \<Rightarrow> 'i job list" where
  "by_priority key js = sort_key key (sort_key job_id js)"

text \<open>
  Modelled from the spec: the assignment of jobs to nodes that the missing simulation makes
  at an event (sections 4.3 to 4.5), as a list of pairs of a node and a job identifier.
  The ready jobs are put in priority order. A preemptive scheduler lets "the \<open>m\<close> ready
  jobs (or fewer)" with the smallest keys occupy the nodes: a running job among them stays
  on its node, and "a running job with laxity no longer among the \<open>m\<close> smallest is
  preempted"; with \<open>m = 1\<close> this is the single-node rule "if it differs from the currently
  running job, preempt". A scheduler that is not preemptive keeps every running job that
  is not finished. The remaining jobs, in priority order, go to the idle nodes, "the node
  that became idle earliest" first, "ties: lowest node index".
\<close>

definition assign_nodes ::
  "bool \<Rightarrow> ('i sim \<Rightarrow> ('i::linorder) job \<Rightarrow> int) \<Rightarrow> nat \<Rightarrow> 'i job list \<Rightarrow> 'i sim \<Rightarrow> (nat \<times> 'i) list" where
  "assign_nodes preemptive key m js s =
     (let eligible = by_priority (key s) (filter (is_ready s) js);
          pool = map job_id (if preemptive then take m eligible else eligible);
          kept = concat (map (\<lambda>n. case running s n of
                                     None \<Rightarrow> []
                                   | Some i \<Rightarrow> if i \<in> set pool then [(n, i)] else []) [0..<m]);
          free = sort_key (available s) (filter (\<lambda>n. n \<notin> set (map fst kept)) [0..<m]);
          fresh = filter (\<lambda>i. i \<notin> set (map snd kept)) pool
      in kept @ zip free fresh)"

text \<open>
  Modelled from the spec: the time of the next event of the missing simulation (section
  4.3): "Time advances to the next of: a job arrival, a predecessor completion that
  unblocks a successor, or the current running job's completion". A completion is the
  completion of a job that runs; there is no next event when no job is still to arrive
  and none runs.
\<close>

definition next_event :: "'i job list \<Rightarrow> 'i sim \<Rightarrow> (nat \<times> 'i) list \<Rightarrow> int option" where
  "next_event js s assignment =
     (case map arrival (filter (\<lambda>j. now s < arrival j) js) @
           map (\<lambda>(n, i). now s + remaining s i) assignment of
        [] \<Rightarrow> None
      | t # ts \<Rightarrow> Some (fold min ts t))"

text \<open>
  Modelled from the spec: how the missing simulation records that a job ran on a node from
  \<open>t\<close> to \<open>t'\<close> (section 3, Schedule / Result). A job that simply goes on running on its
  node across an event keeps one interval; a job that starts, or resumes after another
  job or a pause, opens a new one.
\<close>

definition record_run :: "'i \<Rightarrow> int \<Rightarrow> int \<Rightarrow> 'i interval list \<Rightarrow> 'i interval list" where
  "record_run i t t' intervals =
     (case intervals of
        [] \<Rightarrow> [(i, t, t')]
      | (i', a, b) # rest \<Rightarrow>
          if i' = i \<and> b = t then (i, a, t') # rest else (i, t, t') # intervals)"

text \<open>
  Modelled from the spec: the state of the missing simulation after the assigned jobs have
  run until the next event at \<open>t'\<close> (sections 3 and 4.3): the counters of the jobs that ran
  go down by the time that passed ("the preempted job retains remaining execution time"),
  the nodes that ran a job become available at \<open>t'\<close>, and the run is recorded.
\<close>

definition advance_to :: "'i sim \<Rightarrow> (nat \<times> 'i) list \<Rightarrow> int \<Rightarrow> 'i sim" where
  "advance_to s assignment t' =
     \<lparr> now = t',
       remaining = (\<lambda>i. if i \<in> set (map snd assignment)
                        then remaining s i - (t' - now s) else remaining s i),
       running = map_of assignment,
       available = (\<lambda>n. if n \<in> set (map fst assignment) then t' else available s n),
       timeline = (\<lambda>n. case map_of assignment n of
                          None \<Rightarrow> timeline s n
                        | Some i \<Rightarrow> record_run i (now s) t' (timeline s n)) \<rparr>"

text \<open>
  Modelled from the spec: one event of the missing simulation (section 4.3): assign, then
  run to the next event; nothing when there is no next event.
\<close>

definition event_step ::
  "bool \<Rightarrow> ('i sim \<Rightarrow> ('i::linorder) job \<Rightarrow> int) \<Rightarrow> nat \<Rightarrow> 'i job list \<Rightarrow> 'i sim \<Rightarrow> 'i sim option" where
  "event_step preemptive key m js s =
     (let assignment = assign_nodes preemptive key m js s
      in case next_event js s assignment of
           None \<Rightarrow> None
         | Some t' \<Rightarrow> Some (advance_to s assignment t'))"

text \<open>
  Modelled from the spec: the loop of the missing simulation (section 4.3), "Continue until
  all jobs complete": event after event until there is no next one.
\<close>

function simulate ::
  "bool \<Rightarrow> ('i sim \<Rightarrow> ('i::linorder) job \<Rightarrow> int) \<Rightarrow> nat \<Rightarrow> 'i job list \<Rightarrow> 'i sim \<Rightarrow> 'i sim" where
  "simulate preemptive key m js s =
     (case event_step preemptive key m js s of
        None \<Rightarrow> s
      | Some s' \<Rightarrow> simulate preemptive key m js s')"
  by pat_completeness auto

text \<open>
  Modelled from the spec: the state in which the missing simulation starts (section 3): at
  time 0, every counter at the execution time of its job, every node idle since time 0,
  nothing recorded.
\<close>

definition initial_sim :: "'i job list \<Rightarrow> 'i sim" where
  "initial_sim js =
     \<lparr> now = 0,
       remaining = (\<lambda>i. case find (\<lambda>j. job_id j = i) js of
                          None \<Rightarrow> 0 | Some j \<Rightarrow> execution_time j),
       running = (\<lambda>n. None),
       available = (\<lambda>n. 0),
       timeline = (\<lambda>n. []) \<rparr>"

text \<open>
  Modelled from the spec: the Result the missing simulation hands back (section 3): the
  intervals of each of the \<open>m\<close> nodes, in time order.
\<close>

definition event_simulation ::
  "bool \<Rightarrow> ('i sim \<Rightarrow> ('i::linorder) job \<Rightarrow> int) \<Rightarrow> nat \<Rightarrow> 'i job list \<Rightarrow> 'i schedule" where
  "event_simulation preemptive key m js =
     (let final = simulate preemptive key m js (initial_sim js)
      in map (\<lambda>n. rev (timeline final n)) [0..<m])"

subsection \<open>The schedulers\<close>

text \<open>
  Modelled from the spec: the missing algorithm function \<open>edf_single_node\<close> (section 4.3):
  the preemptive simulation on one node, the key being the deadline.
\<close>

definition edf_single_node :: "('i::linorder) job list \<Rightarrow> 'i schedule" where
  "edf_single_node js = event_simulation True (\<lambda>s j. deadline j) 1 js"

text \<open>
  Modelled from the spec: the missing algorithm function \<open>edf_multinode_no_delay\<close> (section
  4.3): "assign the globally earliest-deadline ready jobs to idle nodes", "newly freed
  nodes immediately pick up the next highest-priority ready job". The sentences speak of
  idle and freed nodes only, so a running job keeps its node until it completes.
\<close>

definition edf_multinode_no_delay :: "nat \<Rightarrow> ('i::linorder) job list \<Rightarrow> 'i schedule" where
  "edf_multinode_no_delay m js = event_simulation False (\<lambda>s j. deadline j) m js"

text \<open>
  Modelled from the spec: the rank of a job in the static LDF order (section 4.4), "a fixed
  precedence-respecting ranking": its position in the execution order.
\<close>

definition ldf_rank :: "('i::linorder) job list \<Rightarrow> 'i sim \<Rightarrow> 'i job \<Rightarrow> int" where
  "ldf_rank js s j = int (length (takeWhile (\<lambda>k. job_id k \<noteq> job_id j) (ldf_priority js)))"

text \<open>
  Modelled from the spec: the missing algorithm function \<open>ldf_multinode_no_delay\<close> (section
  4.4): list scheduling under the fixed LDF priority list.
\<close>

definition ldf_multinode_no_delay :: "nat \<Rightarrow> ('i::linorder) job list \<Rightarrow> 'i schedule" where
  "ldf_multinode_no_delay m js = event_simulation False (ldf_rank js) m js"

text \<open>
  Modelled from the spec: the laxity of a job (section 4.5 and the glossary): "deadline -
  t - remaining_execution_time".
\<close>

definition laxity :: "'i sim \<Rightarrow> 'i job \<Rightarrow> int" where
  "laxity s j = deadline j - now s - remaining s (job_id j)"

text \<open>
  Modelled from the spec: the missing least-laxity schedulers (section 4.5): the preemptive
  simulation whose key is the laxity at the time of the event, on one node and on \<open>m\<close>
  nodes.
\<close>

definition ll_single_node :: "('i::linorder) job list \<Rightarrow> 'i schedule" where
  "ll_single_node js = event_simulation True laxity 1 js"

definition ll_multinode_no_delay :: "nat \<Rightarrow> ('i::linorder) job list \<Rightarrow> 'i schedule" where
  "ll_multinode_no_delay m js = event_simulation True laxity m js"

subsection \<open>What a schedule has to satisfy\<close>

text \<open>
  The intervals of a node are chronological when none ends before it starts and each one
  ends before any later one starts: they are sorted by time and do not overlap.
\<close>

definition chronological :: "'i interval list \<Rightarrow> bool" where
  "chronological xs \<longleftrightarrow>
     list_all (\<lambda>(i, a, b). a \<le> b) xs \<and>
     sorted_wrt (\<lambda>(i, a, b) (i', a', b'). b \<le> a') xs"

text \<open>A job is scheduled when some node has an interval of it.\<close>

definition scheduled :: "'i schedule \<Rightarrow> 'i \<Rightarrow> bool" where
  "scheduled r p \<longleftrightarrow> list_ex (list_ex (\<lambda>(i, a, b). i = p)) r"

text \<open>
  A job is finished by the time \<open>t\<close> when it is scheduled and every interval of it, on any
  node, ends at \<open>t\<close> or before.
\<close>

definition finished_by :: "'i schedule \<Rightarrow> 'i \<Rightarrow> int \<Rightarrow> bool" where
  "finished_by r p t \<longleftrightarrow>
     scheduled r p \<and> list_all (list_all (\<lambda>(i, a, b). i = p \<longrightarrow> b \<le> t)) r"

text \<open>
  The precedence invariant: whenever an interval of a job starts, every predecessor of
  the job is finished.
\<close>

definition respects_precedence :: "'i job list \<Rightarrow> 'i schedule \<Rightarrow> bool" where
  "respects_precedence js r \<longleftrightarrow>
     list_all (list_all (\<lambda>(i, a, b).
       list_all (\<lambda>j. job_id j = i \<longrightarrow> list_all (\<lambda>p. finished_by r p a) (dependencies j)) js)) r"

text \<open>
  An execution order is topological when no job depends on a job that comes later in the
  order, or on itself.
\<close>

definition topological :: "'i job list \<Rightarrow> bool" where
  "topological order \<longleftrightarrow>
     sorted_wrt (\<lambda>a b. job_id b \<notin> set (dependencies a)) order \<and>
     (\<forall>a \<in> set order. job_id a \<notin> set (dependencies a))"

text \<open>
  The number of events the simulation can still see: the jobs not yet finished and the
  jobs not yet arrived. Every event lowers it.
\<close>

definition pending :: "'i job list \<Rightarrow> 'i sim \<Rightarrow> nat" where
  "pending js s =
     length (filter (\<lambda>j. 0 < remaining s (job_id j)) js) +
     length (filter (\<lambda>j. now s < arrival j) js)"

text \<open>
  What holds of the state of the simulation at every event: a job whose counter has gone
  down has an interval on one of the \<open>m\<close> nodes; every interval has a positive length and
  ends by now; the intervals of a node, latest first, do not overlap; and when a job has
  an interval, each of its predecessors is finished and all intervals of the predecessor
  end before that interval starts.
\<close>

definition sim_inv :: "nat \<Rightarrow> 'i job list \<Rightarrow> 'i sim \<Rightarrow> bool" where
  "sim_inv m js s \<longleftrightarrow>
     (\<forall>i. remaining s i < remaining (initial_sim js) i \<longrightarrow>
        (\<exists>n < m. \<exists>a b. (i, a, b) \<in> set (timeline s n))) \<and>
     (\<forall>n i a b. (i, a, b) \<in> set (timeline s n) \<longrightarrow> a < b \<and> b \<le> now s) \<and>
     (\<forall>n. sorted_wrt (\<lambda>(i, a, b) (i', a', b'). b' \<le> a) (timeline s n)) \<and>
     (\<forall>n i a b j p. (i, a, b) \<in> set (timeline s n) \<longrightarrow> j \<in> set js \<longrightarrow> job_id j = i \<longrightarrow>
        p \<in> set (dependencies j) \<longrightarrow>
        remaining s p \<le> 0 \<and>
        (\<forall>n' a' b'. (p, a', b') \<in> set (timeline s n') \<longrightarrow> b' \<le> a))"

subsection \<open>Job sets to run the schedulers on\<close>

text \<open>
  Four jobs, two of which wait for the first, and two jobs that wait for each other.
\<close>

definition demo_jobs :: "string job list" where
  "demo_jobs =
     [\<lparr> job_id = ''A'', execution_time = 3, period = None, deadline = 4, arrival = 0, dependencies = [] \<rparr>,
      \<lparr> job_id = ''B'', execution_time = 1, period = None, deadline = 2, arrival = 1, dependencies = [''A''] \<rparr>,
      \<lparr> job_id = ''C'', execution_time = 1, period = None, deadline = 7, arrival = 0, dependencies = [''A''] \<rparr>,
      \<lparr> job_id = ''D'', execution_time = 4, period = None, deadline = 9, arrival = 1, dependencies = [] \<rparr>]"

definition cyclic_jobs :: "string job list" where
  "cyclic_jobs =
     [\<lparr> job_id = ''A'', execution_time = 3, period = None, deadline = 4, arrival = 0, dependencies = [''B''] \<rparr>,
      \<lparr> job_id = ''B'', execution_time = 1, period = None, deadline = 2, arrival = 1, dependencies = [''A''] \<rparr>]"

text \<open>
  A JSON rendering of a job, and a request whose application data holds the two jobs that
  wait for each other. The field names are for illustration only: the input schema is not
  among the sources, and the handler never looks inside the application data.
\<close>

definition encode_job :: "string job \<Rightarrow> json" where
  "encode_job j =
     JObj [(''id'', JStr (job_id j)),
           (''execution_time'', JNum (of_int (execution_time j))),
           (''deadline'', JNum (of_int (deadline j))),
           (''arrival'', JNum (of_int (arrival j))),
           (''dependencies'', JArr (map JStr (dependencies j)))]"

definition cyclic_request :: dict where
  "cyclic_request =
     [(''application'', JObj [(''jobs'', JArr (map encode_job cyclic_jobs))]),
      (''platform'', JObj [(''nodes'', JArr [JNum 2])])]"

section \<open>Properties of the transport layer\<close>

subsection \<open>Auxiliary facts\<close>

lemma bind_invoke:
  "bind (invoke e name args) f tr =
     (case alg e name args of
        Inl err \<Rightarrow> (Inl err, tr @ [(name, args)])
      | Inr v \<Rightarrow> f v (tr @ [(name, args)]))"
  by (simp add: bind_def invoke_def split: sum.splits)

lemma snd_check_response: "snd (check_response e response tr) = tr"
  by (simp add: check_response_def raise_exn_def return_val_def split: sum.splits exn.splits)

lemma fst_check_response_Inr:
  "fst (check_response e response tr) = Inr r \<longleftrightarrow>
     r = response \<and> validate_outputs e response = Inr ()"
  by (auto simp: check_response_def raise_exn_def return_val_def split: sum.splits exn.splits)

lemma validate_outputs_errors:
  "validate_outputs e response = Inl err \<Longrightarrow> err = ValidationError \<or> err = SchemaError"
  by (induction e response rule: validate_outputs.induct)
     (auto simp: validate_def split: if_splits sum.splits)

lemma fst_check_response_Inl:
  "fst (check_response e response tr) = Inl err \<Longrightarrow>
     err = HTTPException 500 ''Invalid Output Schema'' \<or> err = SchemaError"
  using validate_outputs_errors [of e response]
  by (auto simp: check_response_def raise_exn_def return_val_def split: sum.splits exn.splits)

lemma validate_outputs_invalid:
  "(key, v) \<in> set response \<Longrightarrow> validate e v (output_schema e) = Inl ValidationError \<Longrightarrow>
     validate_outputs e response = Inl ValidationError"
proof (induction e response rule: validate_outputs.induct)
  case (1 e)
  then show ?case by simp
next
  case (2 e k w rest)
  from "2.prems"(2) have wf: "check_schema e (output_schema e)"
    by (simp add: validate_def split: if_splits)
  show ?case
  proof (cases "validate e w (output_schema e)")
    case (Inl err)
    with wf show ?thesis by (simp add: validate_def split: if_splits)
  next
    case (Inr u)
    with "2.prems" have "(key, v) \<in> set rest" by auto
    with "2.IH" Inr "2.prems"(2) show ?thesis by simp
  qed
qed

lemma run_algorithms_trace:
  "prefix (snd (run_algorithms e data tr)) (tr @ five_calls data)"
  by (simp add: run_algorithms_def Let_def bind_invoke snd_check_response five_calls_def
      split: sum.splits)

lemma run_algorithms_returns:
  assumes "fst (run_algorithms e data tr) = Inr response"
  shows "\<exists>r1 r2 r3 r4 r5.
      alg e ''ldf_single_node'' [dict_get data ''application''] = Inr r1 \<and>
      alg e ''edf_single_node'' [dict_get data ''application''] = Inr r2 \<and>
      alg e ''edf_multinode_no_delay'' [dict_get data ''application'', dict_get data ''platform''] = Inr r3 \<and>
      alg e ''ldf_multinode_no_delay'' [dict_get data ''application'', dict_get data ''platform''] = Inr r4 \<and>
      alg e ''ll_multinode_no_delay'' [dict_get data ''application'', dict_get data ''platform''] = Inr r5 \<and>
      response = [(''edfsingle_node'', r2), (''ldf_single_node'', r1),
         (''edf_multinode_no_delay'', r3), (''ldf_multinode_no_delay'', r4),
         (''ll_multinode_no_delay'', r5)] \<and>
      validate_outputs e response = Inr () \<and>
      snd (run_algorithms e data tr) = tr @ five_calls data"
  using assms
  by (simp add: run_algorithms_def Let_def bind_invoke snd_check_response
      fst_check_response_Inr five_calls_def split: sum.splits) 

lemma run_algorithms_all_return:
  assumes "alg e ''ldf_single_node'' [dict_get data ''application''] = Inr r1"
    and "alg e ''edf_single_node'' [dict_get data ''application''] = Inr r2"
    and "alg e ''edf_multinode_no_delay'' [dict_get data ''application'', dict_get data ''platform''] = Inr r3"
    and "alg e ''ldf_multinode_no_delay'' [dict_get data ''application'', dict_get data ''platform''] = Inr r4"
    and "alg e ''ll_multinode_no_delay'' [dict_get data ''application'', dict_get data ''platform''] = Inr r5"
  shows "run_algorithms e data tr =
     check_response e [(''edfsingle_node'', r2), (''ldf_single_node'', r1),
         (''edf_multinode_no_delay'', r3), (''ldf_multinode_no_delay'', r4),
         (''ll_multinode_no_delay'', r5)] (tr @ five_calls data)"
  using assms by (simp add: run_algorithms_def Let_def bind_invoke five_calls_def)

lemma schedule_jobs_valid:
  "validate e (JObj data) (input_schema e) = Inr () \<Longrightarrow>
     schedule_jobs e data = run_algorithms e data []"
  by (simp add: schedule_jobs_def)

lemma schedule_jobs_trace:
  "prefix (snd (schedule_jobs e data)) (five_calls data)"
  using run_algorithms_trace [of e data "[]"]
  by (simp add: schedule_jobs_def raise_exn_def split: sum.splits exn.splits)

lemma schedule_jobs_Inr_run:
  "fst (schedule_jobs e data) = Inr response \<Longrightarrow> schedule_jobs e data = run_algorithms e data []"
  by (simp add: schedule_jobs_def raise_exn_def split: sum.splits exn.splits)

lemma demo_run:
  "schedule_jobs demo_env demo_request =
     (Inr [(''edfsingle_node'', JArr [JStr ''edf_single_node'']),
           (''ldf_single_node'', JArr [JStr ''ldf_single_node'']),
           (''edf_multinode_no_delay'', JArr [JStr ''edf_multinode_no_delay'']),
           (''ldf_multinode_no_delay'', JArr [JStr ''ldf_multinode_no_delay'']),
           (''ll_multinode_no_delay'', JArr [JStr ''ll_multinode_no_delay''])],
      five_calls demo_request)"
  by (simp add: schedule_jobs_def validate_def demo_env_def run_algorithms_def Let_def
      bind_invoke check_response_def return_val_def five_calls_def)

lemma demo_returns: "fst (schedule_jobs demo_env demo_request) = Inr demo_response"
  by (simp add: demo_run demo_response_def)

lemma names_five_calls: "map fst (five_calls data) = algorithm_names"
  by (simp add: five_calls_def algorithm_names_def)

lemma algorithm_names_clean: "list_all (\<lambda>name. \<not> mentions_rms name) algorithm_names"
  by code_simp

lemma response_keys_clean: "list_all (\<lambda>name. \<not> mentions_rms name) response_keys"
  by code_simp

lemma schedule_jobs_names:
  "prefix (map fst (snd (schedule_jobs e data))) algorithm_names"
  using schedule_jobs_trace [of e data, THEN map_mono_prefix, of fst]
  by (simp only: names_five_calls)

lemma called_names:
  "(\<Union>e data. set (map fst (snd (schedule_jobs e data)))) = set algorithm_names"
proof
  show "(\<Union>e data. set (map fst (snd (schedule_jobs e data)))) \<subseteq> set algorithm_names"
    using schedule_jobs_names set_mono_prefix by blast
next
  have "snd (schedule_jobs demo_env demo_request) = five_calls demo_request"
    by (simp add: demo_run)
  then have "set algorithm_names = set (map fst (snd (schedule_jobs demo_env demo_request)))"
    by (simp add: names_five_calls)
  then show "set algorithm_names \<subseteq> (\<Union>e data. set (map fst (snd (schedule_jobs e data))))"
    by blast
qed

lemma schedule_jobs_returned_log:
  assumes r: "fst (schedule_jobs e data) = Inr response"
  shows "snd (schedule_jobs e data) = five_calls data \<and> map fst response = response_keys"
proof -
  have same: "schedule_jobs e data = run_algorithms e data []"
    using r by (rule schedule_jobs_Inr_run)
  have run: "fst (run_algorithms e data []) = Inr response"
    using r unfolding same .
  from run_algorithms_returns [OF run] obtain r1 r2 r3 r4 r5 where
    "alg e ''ldf_single_node'' [dict_get data ''application''] = Inr r1 \<and>
      alg e ''edf_single_node'' [dict_get data ''application''] = Inr r2 \<and>
      alg e ''edf_multinode_no_delay'' [dict_get data ''application'', dict_get data ''platform''] = Inr r3 \<and>
      alg e ''ldf_multinode_no_delay'' [dict_get data ''application'', dict_get data ''platform''] = Inr r4 \<and>
      alg e ''ll_multinode_no_delay'' [dict_get data ''application'', dict_get data ''platform''] = Inr r5 \<and>
      response = [(''edfsingle_node'', r2), (''ldf_single_node'', r1),
         (''edf_multinode_no_delay'', r3), (''ldf_multinode_no_delay'', r4),
         (''ll_multinode_no_delay'', r5)] \<and>
      validate_outputs e response = Inr () \<and>
      snd (run_algorithms e data []) = [] @ five_calls data"
    by (elim exE)
  then have resp: "response = [(''edfsingle_node'', r2), (''ldf_single_node'', r1),
         (''edf_multinode_no_delay'', r3), (''ldf_multinode_no_delay'', r4),
         (''ll_multinode_no_delay'', r5)]"
    and tr: "snd (run_algorithms e data []) = [] @ five_calls data"
    by simp_all
  from tr have "snd (schedule_jobs e data) = five_calls data"
    unfolding same by simp
  moreover have "map fst response = response_keys"
    unfolding resp response_keys_def by simp
  ultimately show ?thesis ..
qed

lemma run_algorithms_values:
  assumes "fst (run_algorithms e data tr) = Inr response"
  shows "list_all (\<lambda>(key, v). \<exists>args. (algorithm_of_key key, args) \<in> set (five_calls data) \<and>
            alg e (algorithm_of_key key) args = Inr v) response"
proof -
  from run_algorithms_returns [OF assms] obtain r1 r2 r3 r4 r5 where
    "alg e ''ldf_single_node'' [dict_get data ''application''] = Inr r1 \<and>
      alg e ''edf_single_node'' [dict_get data ''application''] = Inr r2 \<and>
      alg e ''edf_multinode_no_delay'' [dict_get data ''application'', dict_get data ''platform''] = Inr r3 \<and>
      alg e ''ldf_multinode_no_delay'' [dict_get data ''application'', dict_get data ''platform''] = Inr r4 \<and>
      alg e ''ll_multinode_no_delay'' [dict_get data ''application'', dict_get data ''platform''] = Inr r5 \<and>
      response = [(''edfsingle_node'', r2), (''ldf_single_node'', r1),
         (''edf_multinode_no_delay'', r3), (''ldf_multinode_no_delay'', r4),
         (''ll_multinode_no_delay'', r5)] \<and>
      validate_outputs e response = Inr () \<and>
      snd (run_algorithms e data tr) = tr @ five_calls data"
    by (elim exE)
  then have a1: "alg e ''ldf_single_node'' [dict_get data ''application''] = Inr r1"
    and a2: "alg e ''edf_single_node'' [dict_get data ''application''] = Inr r2"
    and a3: "alg e ''edf_multinode_no_delay'' [dict_get data ''application'', dict_get data ''platform''] = Inr r3"
    and a4: "alg e ''ldf_multinode_no_delay'' [dict_get data ''application'', dict_get data ''platform''] = Inr r4"
    and a5: "alg e ''ll_multinode_no_delay'' [dict_get data ''application'', dict_get data ''platform''] = Inr r5"
    and resp: "response = [(''edfsingle_node'', r2), (''ldf_single_node'', r1),
         (''edf_multinode_no_delay'', r3), (''ldf_multinode_no_delay'', r4),
         (''ll_multinode_no_delay'', r5)]"
    by simp_all
  have k2: "\<exists>args. (''edf_single_node'', args) \<in> set (five_calls data) \<and>
      alg e ''edf_single_node'' args = Inr r2"
    using a2 by (intro exI [of _ "[dict_get data ''application'']"]) (simp add: five_calls_def)
  have k1: "\<exists>args. (''ldf_single_node'', args) \<in> set (five_calls data) \<and>
      alg e ''ldf_single_node'' args = Inr r1"
    using a1 by (intro exI [of _ "[dict_get data ''application'']"]) (simp add: five_calls_def)
  have k3: "\<exists>args. (''edf_multinode_no_delay'', args) \<in> set (five_calls data) \<and>
      alg e ''edf_multinode_no_delay'' args = Inr r3"
    using a3
    by (intro exI [of _ "[dict_get data ''application'', dict_get data ''platform'']"])
       (simp add: five_calls_def)
  have k4: "\<exists>args. (''ldf_multinode_no_delay'', args) \<in> set (five_calls data) \<and>
      alg e ''ldf_multinode_no_delay'' args = Inr r4"
    using a4
    by (intro exI [of _ "[dict_get data ''application'', dict_get data ''platform'']"])
       (simp add: five_calls_def)
  have k5: "\<exists>args. (''ll_multinode_no_delay'', args) \<in> set (five_calls data) \<and>
      alg e ''ll_multinode_no_delay'' args = Inr r5"
    using a5
    by (intro exI [of _ "[dict_get data ''application'', dict_get data ''platform'']"])
       (simp add: five_calls_def)
  show ?thesis
    unfolding resp using k1 k2 k3 k4 k5 by (simp add: algorithm_of_key_def)
qed


lemma demo_env_run: "schedule_jobs demo_env data = (Inr demo_response, five_calls data)"
  by (simp add: schedule_jobs_def validate_def demo_env_def run_algorithms_def Let_def
      bind_invoke check_response_def return_val_def five_calls_def demo_response_def)

lemma run_algorithms_log:
  "snd (run_algorithms e data tr) =
     tr @ take (Suc (length (takeWhile (\<lambda>(name, args). \<not> isl (alg e name args)) (five_calls data))))
            (five_calls data)"
  by (simp add: run_algorithms_def Let_def bind_invoke snd_check_response five_calls_def
      split: sum.splits)





lemma run_algorithms_first:
  "snd (run_algorithms e data []) \<noteq> [] \<and>
   hd (snd (run_algorithms e data [])) = (''ldf_single_node'', [dict_get data ''application''])"
  by (simp add: run_algorithms_log five_calls_def)

lemma cyclic_jobs_rejected: "validate_model cyclic_jobs = Inl CyclicDependency"
  by code_simp



subsection \<open>The keys of the response\<close>

text \<open>
  Claim C1, as amended. Whenever \<open>schedule_jobs\<close> returns a response, the response has
  exactly five keys, in this order: \<open>edfsingle_node\<close>, \<open>ldf_single_node\<close>,
  \<open>edf_multinode_no_delay\<close>, \<open>ldf_multinode_no_delay\<close> and \<open>ll_multinode_no_delay\<close>. The
  key \<open>edfsingle_node\<close> is bound to what \<open>alg.edf_single_node\<close> returned on the application
  data, and every other key to what the algorithm function of the same name returned.
\<close>

theorem schedule_jobs_response_keys:
  assumes "fst (schedule_jobs e data) = Inr response"
  shows "\<exists>r1 r2 r3 r4 r5.
      response = [(''edfsingle_node'', r2), (''ldf_single_node'', r1),
         (''edf_multinode_no_delay'', r3), (''ldf_multinode_no_delay'', r4),
         (''ll_multinode_no_delay'', r5)] \<and>
      alg e ''edf_single_node'' [dict_get data ''application''] = Inr r2 \<and>
      alg e ''ldf_single_node'' [dict_get data ''application''] = Inr r1 \<and>
      alg e ''edf_multinode_no_delay'' [dict_get data ''application'', dict_get data ''platform''] = Inr r3 \<and>
      alg e ''ldf_multinode_no_delay'' [dict_get data ''application'', dict_get data ''platform''] = Inr r4 \<and>
      alg e ''ll_multinode_no_delay'' [dict_get data ''application'', dict_get data ''platform''] = Inr r5"
proof -
  have same: "schedule_jobs e data = run_algorithms e data []"
    using assms by (rule schedule_jobs_Inr_run)
  have "fst (run_algorithms e data []) = Inr response"
    using assms unfolding same .
  from run_algorithms_returns [OF this] show ?thesis
    by (elim exE conjE) simp
qed

theorem schedule_jobs_response_keys_witness:
  "fst (schedule_jobs demo_env demo_request) = Inr demo_response \<and>
   (\<exists>r1 r2 r3 r4 r5.
      demo_response = [(''edfsingle_node'', r2), (''ldf_single_node'', r1),
         (''edf_multinode_no_delay'', r3), (''ldf_multinode_no_delay'', r4),
         (''ll_multinode_no_delay'', r5)] \<and>
      alg demo_env ''edf_single_node'' [dict_get demo_request ''application''] = Inr r2 \<and>
      alg demo_env ''ldf_single_node'' [dict_get demo_request ''application''] = Inr r1 \<and>
      alg demo_env ''edf_multinode_no_delay'' [dict_get demo_request ''application'', dict_get demo_request ''platform''] = Inr r3 \<and>
      alg demo_env ''ldf_multinode_no_delay'' [dict_get demo_request ''application'', dict_get demo_request ''platform''] = Inr r4 \<and>
      alg demo_env ''ll_multinode_no_delay'' [dict_get demo_request ''application'', dict_get demo_request ''platform''] = Inr r5)"
  using demo_returns schedule_jobs_response_keys [OF demo_returns] by (rule conjI)

text \<open>
  The claim as first stated names the key \<open>edf_single_node\<close>. The response to
  \<open>demo_request\<close> has no such key: the result of \<open>alg.edf_single_node\<close> is stored under
  \<open>edfsingle_node\<close>.
\<close>

theorem edf_single_node_key_counterexample:
  "fst (schedule_jobs demo_env demo_request) = Inr demo_response \<and>
   ''edf_single_node'' \<notin> fst ` set demo_response \<and>
   ''edfsingle_node'' \<in> fst ` set demo_response"
  using demo_returns by (simp add: demo_response_def)

subsection \<open>No rate-monotonic computation\<close>

text \<open>
  Claim C2. Taken over all environments and requests, the set of algorithm functions that
  \<open>schedule_jobs\<close> calls is exactly the five functions \<open>ldf_single_node\<close>,
  \<open>edf_single_node\<close>, \<open>edf_multinode_no_delay\<close>, \<open>ldf_multinode_no_delay\<close> and
  \<open>ll_multinode_no_delay\<close>, none of which speaks of rate-monotonic scheduling. For each
  single request the names called are an initial part of these five, in this order (none
  when the request is refused, fewer than five when a call raises). When a response is
  returned, the calls made are exactly these five, and no key of the response speaks of
  rate-monotonic scheduling either.
\<close>

theorem schedule_jobs_calls_no_rms:
  "(\<Union>e' data'. set (map fst (snd (schedule_jobs e' data')))) = set algorithm_names \<and>
   prefix (map fst (snd (schedule_jobs e data))) algorithm_names \<and>
   list_all (\<lambda>name. \<not> mentions_rms name) algorithm_names \<and>
   (\<forall>response. fst (schedule_jobs e data) = Inr response \<longrightarrow>
      map fst (snd (schedule_jobs e data)) = algorithm_names \<and>
      map fst response = response_keys \<and>
      list_all (\<lambda>key. \<not> mentions_rms key) (map fst response))"
proof (intro conjI allI impI)
  show "(\<Union>e' data'. set (map fst (snd (schedule_jobs e' data')))) = set algorithm_names"
    by (rule called_names)
  show "prefix (map fst (snd (schedule_jobs e data))) algorithm_names"
    by (rule schedule_jobs_names)
  show "list_all (\<lambda>name. \<not> mentions_rms name) algorithm_names"
    by (rule algorithm_names_clean)
next
  fix response
  assume r: "fst (schedule_jobs e data) = Inr response"
  from schedule_jobs_returned_log [OF r]
  have tr: "snd (schedule_jobs e data) = five_calls data"
    and keys: "map fst response = response_keys"
    by simp_all
  show "map fst (snd (schedule_jobs e data)) = algorithm_names"
    unfolding tr by (rule names_five_calls)
  show "map fst response = response_keys"
    by (rule keys)
  show "list_all (\<lambda>key. \<not> mentions_rms key) (map fst response)"
    unfolding keys by (rule response_keys_clean)
qed

theorem schedule_jobs_calls_no_rms_witness:
  "fst (schedule_jobs demo_env demo_request) = Inr demo_response \<and>
   map fst (snd (schedule_jobs demo_env demo_request)) = algorithm_names \<and>
   map fst demo_response = response_keys \<and>
   list_all (\<lambda>key. \<not> mentions_rms key) (map fst demo_response)"
proof -
  from schedule_jobs_calls_no_rms [of demo_env demo_request]
  have "fst (schedule_jobs demo_env demo_request) = Inr demo_response \<longrightarrow>
      map fst (snd (schedule_jobs demo_env demo_request)) = algorithm_names \<and>
      map fst demo_response = response_keys \<and>
      list_all (\<lambda>key. \<not> mentions_rms key) (map fst demo_response)"
    by (elim conjE allE)
  from this demo_returns
  have "map fst (snd (schedule_jobs demo_env demo_request)) = algorithm_names \<and>
      map fst demo_response = response_keys \<and>
      list_all (\<lambda>key. \<not> mentions_rms key) (map fst demo_response)"
    by (rule mp)
  with demo_returns show ?thesis by (rule conjI)
qed

subsection \<open>Invalid input\<close>

text \<open>
  Claim C3, as amended. When the request fails the validation against the input schema,
  the handler raises \<open>HTTPException(400, "Invalid Input schema")\<close>, the log of algorithm
  calls is empty, and nothing is returned. The schema is all the handler checks: a
  request that passes it reaches the algorithm calls, the first being \<open>ldf_single_node\<close>
  on the application data, whatever is wrong with the job model inside.
\<close>

theorem invalid_input_schema_gives_400:
  "(validate e (JObj data) (input_schema e) = Inl ValidationError \<longrightarrow>
      schedule_jobs e data = (Inl (HTTPException 400 ''Invalid Input schema''), [])) \<and>
   (validate e (JObj data) (input_schema e) = Inr () \<longrightarrow>
      snd (schedule_jobs e data) \<noteq> [] \<and>
      hd (snd (schedule_jobs e data)) = (''ldf_single_node'', [dict_get data ''application'']))"
proof (intro conjI impI)
  assume "validate e (JObj data) (input_schema e) = Inl ValidationError"
  then show "schedule_jobs e data = (Inl (HTTPException 400 ''Invalid Input schema''), [])"
    by (simp add: schedule_jobs_def raise_exn_def)
next
  assume valid: "validate e (JObj data) (input_schema e) = Inr ()"
  from run_algorithms_first [of e data]
  show "snd (schedule_jobs e data) \<noteq> []"
    unfolding schedule_jobs_valid [OF valid] by (rule conjunct1)
  from run_algorithms_first [of e data]
  show "hd (snd (schedule_jobs e data)) = (''ldf_single_node'', [dict_get data ''application''])"
    unfolding schedule_jobs_valid [OF valid] by (rule conjunct2)
qed

theorem invalid_input_schema_gives_400_witness:
  "validate picky_env (JObj []) (input_schema picky_env) = Inl ValidationError \<and>
   schedule_jobs picky_env [] = (Inl (HTTPException 400 ''Invalid Input schema''), []) \<and>
   validate picky_env (JObj demo_request) (input_schema picky_env) = Inr () \<and>
   snd (schedule_jobs picky_env demo_request) \<noteq> [] \<and>
   hd (snd (schedule_jobs picky_env demo_request))
     = (''ldf_single_node'', [dict_get demo_request ''application''])"
proof -
  have bad: "validate picky_env (JObj []) (input_schema picky_env) = Inl ValidationError"
    by (simp add: validate_def picky_env_def)
  have good: "validate picky_env (JObj demo_request) (input_schema picky_env) = Inr ()"
    by (simp add: validate_def picky_env_def demo_request_def)
  from invalid_input_schema_gives_400 [of picky_env "[]"]
  have "validate picky_env (JObj []) (input_schema picky_env) = Inl ValidationError \<longrightarrow>
      schedule_jobs picky_env [] = (Inl (HTTPException 400 ''Invalid Input schema''), [])"
    by (rule conjunct1)
  from this bad
  have 1: "schedule_jobs picky_env [] = (Inl (HTTPException 400 ''Invalid Input schema''), [])"
    by (rule mp)
  from invalid_input_schema_gives_400 [of picky_env demo_request]
  have "validate picky_env (JObj demo_request) (input_schema picky_env) = Inr () \<longrightarrow>
      snd (schedule_jobs picky_env demo_request) \<noteq> [] \<and>
      hd (snd (schedule_jobs picky_env demo_request))
        = (''ldf_single_node'', [dict_get demo_request ''application''])"
    by (rule conjunct2)
  from this good
  have 2: "snd (schedule_jobs picky_env demo_request) \<noteq> [] \<and>
      hd (snd (schedule_jobs picky_env demo_request))
        = (''ldf_single_node'', [dict_get demo_request ''application''])"
    by (rule mp)
  from bad 1 good 2 show ?thesis by (intro conjI) (elim conjE, assumption)+
qed

text \<open>
  The claim as first stated speaks of every input that fails model or structural
  validation, which in the specification means a cycle, an unknown reference or invalid
  timing. The handler has no such check. The request below carries a cyclic job set,
  which the validator of the specification rejects with \<open>CyclicDependency\<close>; an
  environment whose schema accepts it does not answer 400: all five algorithm functions
  are called on it and a response is returned.
\<close>

theorem cyclic_request_reaches_algorithms:
  "validate_model cyclic_jobs = Inl CyclicDependency \<and>
   dict_get cyclic_request ''application'' = JObj [(''jobs'', JArr (map encode_job cyclic_jobs))] \<and>
   validate demo_env (JObj cyclic_request) (input_schema demo_env) = Inr () \<and>
   schedule_jobs demo_env cyclic_request = (Inr demo_response, five_calls cyclic_request) \<and>
   fst (schedule_jobs demo_env cyclic_request) \<noteq> Inl (HTTPException 400 ''Invalid Input schema'') \<and>
   hd (snd (schedule_jobs demo_env cyclic_request))
     = (''ldf_single_node'', [JObj [(''jobs'', JArr (map encode_job cyclic_jobs))]])"
proof -
  have app: "dict_get cyclic_request ''application''
      = JObj [(''jobs'', JArr (map encode_job cyclic_jobs))]"
    by (simp add: cyclic_request_def dict_get_def)
  have valid: "validate demo_env (JObj cyclic_request) (input_schema demo_env) = Inr ()"
    by (simp add: validate_def demo_env_def)
  have run: "schedule_jobs demo_env cyclic_request = (Inr demo_response, five_calls cyclic_request)"
    by (rule demo_env_run)
  have no400: "fst (schedule_jobs demo_env cyclic_request)
      \<noteq> Inl (HTTPException 400 ''Invalid Input schema'')"
    unfolding run by simp
  have first: "hd (snd (schedule_jobs demo_env cyclic_request))
     = (''ldf_single_node'', [JObj [(''jobs'', JArr (map encode_job cyclic_jobs))]])"
    unfolding run by (simp add: five_calls_def app)
  from cyclic_jobs_rejected app valid run no400 first show ?thesis
    by (intro conjI)
qed

subsection \<open>Results are handed back untouched\<close>

text \<open>
  Claim C5. Whenever \<open>schedule_jobs\<close> returns a response, every value of the response is
  exactly the value that the algorithm function of its key returned in one of the logged
  calls, and the response has as many entries as calls were made.
\<close>

theorem schedule_jobs_results_untouched:
  assumes "fst (schedule_jobs e data) = Inr response"
  shows "list_all (\<lambda>(key, v). \<exists>args.
            (algorithm_of_key key, args) \<in> set (snd (schedule_jobs e data)) \<and>
            alg e (algorithm_of_key key) args = Inr v) response \<and>
         length response = length (snd (schedule_jobs e data))"
proof -
  have same: "schedule_jobs e data = run_algorithms e data []"
    using assms by (rule schedule_jobs_Inr_run)
  have run: "fst (run_algorithms e data []) = Inr response"
    using assms unfolding same .
  from schedule_jobs_returned_log [OF assms]
  have tr: "snd (schedule_jobs e data) = five_calls data"
    and keys: "map fst response = response_keys" by simp_all
  from keys have "length (map fst response) = 5"
    by (simp add: response_keys_def)
  then have "length response = length (five_calls data)"
    by (simp add: five_calls_def)
  with run_algorithms_values [OF run] show ?thesis
    unfolding tr by (rule conjI)
qed

theorem schedule_jobs_results_untouched_witness:
  "fst (schedule_jobs demo_env demo_request) = Inr demo_response \<and>
   list_all (\<lambda>(key, v). \<exists>args.
            (algorithm_of_key key, args) \<in> set (snd (schedule_jobs demo_env demo_request)) \<and>
            alg demo_env (algorithm_of_key key) args = Inr v) demo_response \<and>
         length demo_response = length (snd (schedule_jobs demo_env demo_request))"
  using demo_returns schedule_jobs_results_untouched [OF demo_returns] by (rule conjI)

subsection \<open>Invalid output\<close>

text \<open>
  Claim C9. When the request is valid, the five algorithm functions return, and one of
  the five results fails the validation against the output schema, the handler raises
  \<open>HTTPException(500, "Invalid Output Schema")\<close>: no response is returned, whatever the
  other four results are.
\<close>

theorem invalid_output_gives_500:
  assumes valid: "validate e (JObj data) (input_schema e) = Inr ()"
    and a1: "alg e ''ldf_single_node'' [dict_get data ''application''] = Inr r1"
    and a2: "alg e ''edf_single_node'' [dict_get data ''application''] = Inr r2"
    and a3: "alg e ''edf_multinode_no_delay'' [dict_get data ''application'', dict_get data ''platform''] = Inr r3"
    and a4: "alg e ''ldf_multinode_no_delay'' [dict_get data ''application'', dict_get data ''platform''] = Inr r4"
    and a5: "alg e ''ll_multinode_no_delay'' [dict_get data ''application'', dict_get data ''platform''] = Inr r5"
    and bad: "v \<in> {r1, r2, r3, r4, r5}"
      "validate e v (output_schema e) = Inl ValidationError"
  shows "fst (schedule_jobs e data) = Inl (HTTPException 500 ''Invalid Output Schema'')"
proof -
  let ?response = "[(''edfsingle_node'', r2), (''ldf_single_node'', r1),
         (''edf_multinode_no_delay'', r3), (''ldf_multinode_no_delay'', r4),
         (''ll_multinode_no_delay'', r5)]"
  from bad(1) have "v \<in> snd ` set ?response" by auto
  then obtain key where "(key, v) \<in> set ?response" by force
  from validate_outputs_invalid [OF this bad(2)]
  have "validate_outputs e ?response = Inl ValidationError" .
  then have "fst (check_response e ?response ([] @ five_calls data)) =
      Inl (HTTPException 500 ''Invalid Output Schema'')"
    by (simp add: check_response_def raise_exn_def)
  then show ?thesis
    unfolding schedule_jobs_valid [OF valid]
      run_algorithms_all_return [OF a1 a2 a3 a4 a5] .
qed

theorem invalid_output_gives_500_witness:
  "validate picky_env (JObj demo_request) (input_schema picky_env) = Inr () \<and>
   alg picky_env ''ll_multinode_no_delay''
     [dict_get demo_request ''application'', dict_get demo_request ''platform'']
     = Inr (JArr [JStr ''ll_multinode_no_delay'']) \<and>
   validate picky_env (JArr [JStr ''ll_multinode_no_delay'']) (output_schema picky_env)
     = Inl ValidationError \<and>
   fst (schedule_jobs picky_env demo_request) = Inl (HTTPException 500 ''Invalid Output Schema'')"
proof -
  have valid: "validate picky_env (JObj demo_request) (input_schema picky_env) = Inr ()"
    by (simp add: validate_def picky_env_def demo_request_def)
  have a1: "alg picky_env ''ldf_single_node'' [dict_get demo_request ''application'']
      = Inr (JArr [JStr ''ldf_single_node''])"
    by (simp add: picky_env_def)
  have a2: "alg picky_env ''edf_single_node'' [dict_get demo_request ''application'']
      = Inr (JArr [JStr ''edf_single_node''])"
    by (simp add: picky_env_def)
  have a3: "alg picky_env ''edf_multinode_no_delay''
      [dict_get demo_request ''application'', dict_get demo_request ''platform'']
      = Inr (JArr [JStr ''edf_multinode_no_delay''])"
    by (simp add: picky_env_def)
  have a4: "alg picky_env ''ldf_multinode_no_delay''
      [dict_get demo_request ''application'', dict_get demo_request ''platform'']
      = Inr (JArr [JStr ''ldf_multinode_no_delay''])"
    by (simp add: picky_env_def)
  have a5: "alg picky_env ''ll_multinode_no_delay''
      [dict_get demo_request ''application'', dict_get demo_request ''platform'']
      = Inr (JArr [JStr ''ll_multinode_no_delay''])"
    by (simp add: picky_env_def)
  have mem: "JArr [JStr ''ll_multinode_no_delay''] \<in>
      {JArr [JStr ''ldf_single_node''], JArr [JStr ''edf_single_node''],
       JArr [JStr ''edf_multinode_no_delay''], JArr [JStr ''ldf_multinode_no_delay''],
       JArr [JStr ''ll_multinode_no_delay'']}"
    by simp
  have bad: "validate picky_env (JArr [JStr ''ll_multinode_no_delay'']) (output_schema picky_env)
     = Inl ValidationError"
    by (simp add: validate_def picky_env_def)
  from valid a5 bad invalid_output_gives_500 [OF valid a1 a2 a3 a4 a5 mem bad]
  show ?thesis by (intro conjI)
qed

subsection \<open>Missing keys\<close>



section \<open>Properties of the scheduling core\<close>

subsection \<open>Termination and auxiliary facts\<close>

lemma fold_later_deadline_in: "fold later_deadline rs r \<in> set (r # rs)"
  by (induction rs arbitrary: r) (auto simp: later_deadline_def)

lemma ldf_pick_in: "ldf_pick un = Some j \<Longrightarrow> j \<in> set un \<and> successors_assigned un j"
proof -
  assume a: "ldf_pick un = Some j"
  then obtain r rs where f: "filter (successors_assigned un) un = r # rs"
    and j: "j = fold later_deadline rs r"
    by (auto simp: ldf_pick_def split: list.splits)
  from fold_later_deadline_in [of rs r] j have "j \<in> set (filter (successors_assigned un) un)"
    unfolding f by simp
  then show ?thesis by simp
qed

termination ldf_assign
proof (relation "measure (\<lambda>(un, acc). length un)")
  show "wf (measure (\<lambda>(un, acc). length un))" by simp
next
  fix unassigned assigned :: "'a job list" and j
  assume "ldf_pick unassigned = Some j"
  then have "j \<in> set unassigned" by (simp add: ldf_pick_in)
  then have "length (remove1 j unassigned) < length unassigned"
    by (simp add: length_remove1) (cases unassigned; auto)
  then show "((remove1 j unassigned, j # assigned), (unassigned, assigned))
      \<in> measure (\<lambda>(un, acc). length un)"
    by simp
qed

lemma fold_min_in: "fold min ts (t::int) \<in> set (t # ts)"
  by (induction ts arbitrary: t) (auto simp: min_def)

lemma length_filter_mono:
  "(\<And>x. x \<in> set xs \<Longrightarrow> P x \<Longrightarrow> Q x) \<Longrightarrow> length (filter P xs) \<le> length (filter Q xs)"
  by (induction xs) auto

lemma length_filter_less:
  "(\<And>x. x \<in> set xs \<Longrightarrow> P x \<Longrightarrow> Q x) \<Longrightarrow> z \<in> set xs \<Longrightarrow> Q z \<Longrightarrow> \<not> P z \<Longrightarrow>
     length (filter P xs) < length (filter Q xs)"
proof (induction xs)
  case Nil
  then show ?case by simp
next
  case (Cons x xs)
  show ?case
  proof (cases "z = x")
    case True
    have "length (filter P xs) \<le> length (filter Q xs)"
      using Cons.prems(1) by (intro length_filter_mono) auto
    with True Cons.prems show ?thesis by simp
  next
    case False
    with Cons have "length (filter P xs) < length (filter Q xs)" by auto
    with Cons.prems(1) [of x] show ?thesis by auto
  qed
qed

lemma assign_nodes_ready:
  assumes "(n, i) \<in> set (assign_nodes preemptive key m js s)"
  shows "\<exists>j \<in> set js. is_ready s j \<and> job_id j = i"
proof -
  define eligible where "eligible = by_priority (key s) (filter (is_ready s) js)"
  define pool where "pool = map job_id (if preemptive then take m eligible else eligible)"
  have "set pool \<subseteq> job_id ` set eligible"
    by (auto simp: pool_def dest: in_set_takeD)
  moreover have "set eligible = {j \<in> set js. is_ready s j}"
    by (auto simp: eligible_def by_priority_def)
  moreover from assms have "i \<in> set pool"
    by (auto simp: assign_nodes_def Let_def pool_def eligible_def split: option.splits if_splits
        dest!: set_zip_rightD)
  ultimately show ?thesis by auto
qed

lemma event_step_pending:
  assumes "event_step preemptive key m js s = Some s'"
  shows "pending js s' < pending js s"
proof -
  define asg where "asg = assign_nodes preemptive key m js s"
  from assms obtain t' where ne: "next_event js s asg = Some t'" and s': "s' = advance_to s asg t'"
    by (auto simp: event_step_def Let_def asg_def split: option.splits)
  define cands where "cands = map arrival (filter (\<lambda>j. now s < arrival j) js) @
           map (\<lambda>(n, i). now s + remaining s i) asg"
  from ne obtain t ts where c: "cands = t # ts" and t': "t' = fold min ts t"
    by (auto simp: next_event_def cands_def split: list.splits)
  from fold_min_in [of ts t] have mem: "t' \<in> set cands" unfolding c t' .
  have pos: "0 < remaining s i" if "(n, i) \<in> set asg" for n i
    using assign_nodes_ready [of n i preemptive key m js s] that
    by (auto simp: asg_def is_ready_def)
  have later: "now s < x" if "x \<in> set cands" for x
    using that pos by (auto simp: cands_def)
  then have gt: "now s < t'" using mem by blast
  have rem: "remaining s' i \<le> remaining s i" for i
    using gt by (simp add: s' advance_to_def)
  have now': "now s' = t'" by (simp add: s' advance_to_def)
  have le1: "length (filter (\<lambda>j. 0 < remaining s' (job_id j)) js)
      \<le> length (filter (\<lambda>j. 0 < remaining s (job_id j)) js)"
  proof (rule length_filter_mono)
    fix x assume "0 < remaining s' (job_id x)"
    with rem [of "job_id x"] show "0 < remaining s (job_id x)" by linarith
  qed
  have le2: "length (filter (\<lambda>j. now s' < arrival j) js)
      \<le> length (filter (\<lambda>j. now s < arrival j) js)"
  proof (rule length_filter_mono)
    fix x assume "now s' < arrival x"
    with gt now' show "now s < arrival x" by linarith
  qed
  from mem consider
      (arr) j where "j \<in> set js" "now s < arrival j" "t' = arrival j"
    | (fin) n i where "(n, i) \<in> set asg" "t' = now s + remaining s i"
    by (auto simp: cands_def)
  then show ?thesis
  proof cases
    case arr
    have "length (filter (\<lambda>j. now s' < arrival j) js)
      < length (filter (\<lambda>j. now s < arrival j) js)"
    proof (rule length_filter_less [where z = j])
      fix x assume "now s' < arrival x"
      with gt now' show "now s < arrival x" by linarith
    qed (use arr now' in auto)
    with le1 show ?thesis by (simp add: pending_def)
  next
    case fin
    from assign_nodes_ready [of n i preemptive key m js s] fin(1)
    obtain j where j: "j \<in> set js" "is_ready s j" "job_id j = i"
      by (auto simp: asg_def)
    from fin have "remaining s' i = 0"
      by (force simp: s' advance_to_def)
    with j have "\<not> 0 < remaining s' (job_id j)" by simp
    moreover from j have "0 < remaining s (job_id j)" by (simp add: is_ready_def)
    ultimately have "length (filter (\<lambda>j. 0 < remaining s' (job_id j)) js)
      < length (filter (\<lambda>j. 0 < remaining s (job_id j)) js)"
    proof (intro length_filter_less [where z = j])
      fix x assume "0 < remaining s' (job_id x)"
      with rem [of "job_id x"] show "0 < remaining s (job_id x)" by linarith
    qed (use j in auto)
    with le2 show ?thesis by (simp add: pending_def)
  qed
qed

termination simulate
proof (relation "measure (\<lambda>(preemptive, key, m, js, s). pending js s)")
  show "wf (measure (\<lambda>(preemptive, key, m, js, s). pending js s))" by simp
next
  fix preemptive key m and js :: "'a job list" and s s'
  assume "event_step preemptive key m js s = Some s'"
  then have "pending js s' < pending js s" by (rule event_step_pending)
  then show "((preemptive, key, m, js, s'), (preemptive, key, m, js, s))
      \<in> measure (\<lambda>(preemptive, key, m, js, s). pending js s)"
    by simp
qed

declare simulate.simps [simp del] ldf_assign.simps [simp del]

lemma set_record_run:
  "x \<in> set (record_run i t t' xs) \<Longrightarrow>
     x = (i, t, t') \<or> x \<in> set xs \<or> (\<exists>a. x = (i, a, t') \<and> (i, a, t) \<in> set xs)"
  by (auto simp: record_run_def split: list.splits if_splits)

lemma sorted_record_run:
  assumes "sorted_wrt (\<lambda>(i, a, b) (i', a', b'). b' \<le> a) xs"
    and "\<And>i a b. (i, a, b) \<in> set xs \<Longrightarrow> b \<le> t"
    and "t \<le> t'"
  shows "sorted_wrt (\<lambda>(i, a, b) (i', a', b'). b' \<le> a) (record_run i t t' xs)"
  using assms by (fastforce simp: record_run_def split: list.splits)

lemma timeline_advance:
  assumes "x \<in> set (timeline (advance_to s asg t') n)"
  shows "x \<in> set (timeline s n) \<or>
     (\<exists>i. (n, i) \<in> set asg \<and>
        (x = (i, now s, t') \<or> (\<exists>a. x = (i, a, t') \<and> (i, a, now s) \<in> set (timeline s n))))"
proof (cases "map_of asg n")
  case None
  with assms show ?thesis by (simp add: advance_to_def)
next
  case (Some i)
  then have "(n, i) \<in> set asg" by (rule map_of_SomeD)
  moreover from assms Some have "x \<in> set (record_run i (now s) t' (timeline s n))"
    by (simp add: advance_to_def)
  ultimately show ?thesis using set_record_run [of x i "now s" t' "timeline s n"] by blast
qed

lemma record_run_head: "\<exists>a. (i, a, t') \<in> set (record_run i t t' xs)"
  by (auto simp: record_run_def split: list.splits)

lemma record_run_keeps:
  "(i0, a, b) \<in> set xs \<Longrightarrow> i0 \<noteq> i \<Longrightarrow> (i0, a, b) \<in> set (record_run i t t' xs)"
  by (auto simp: record_run_def split: list.splits)

lemma map_fst_kept:
  "map fst (concat (map (\<lambda>n. case g n of None \<Rightarrow> [] | Some i \<Rightarrow> if P i then [(n, i)] else []) ns))
     = filter (\<lambda>n. case g n of None \<Rightarrow> False | Some i \<Rightarrow> P i) ns"
  by (induction ns) (auto split: option.splits)

lemma assign_nodes_distinct:
  "distinct (map fst (assign_nodes preemptive key m js s)) \<and>
   set (map fst (assign_nodes preemptive key m js s)) \<subseteq> {0..<m}"
proof -
  define eligible where "eligible = by_priority (key s) (filter (is_ready s) js)"
  define pool where "pool = map job_id (if preemptive then take m eligible else eligible)"
  define kept where "kept = concat (map (\<lambda>n. case running s n of
                                     None \<Rightarrow> []
                                   | Some i \<Rightarrow> if i \<in> set pool then [(n, i)] else []) [0..<m])"
  define free where "free = sort_key (available s) (filter (\<lambda>n. n \<notin> set (map fst kept)) [0..<m])"
  define fresh where "fresh = filter (\<lambda>i. i \<notin> set (map snd kept)) pool"
  have asg: "assign_nodes preemptive key m js s = kept @ zip free fresh"
    unfolding assign_nodes_def Let_def kept_def free_def fresh_def pool_def eligible_def
    by (rule refl)
  have k: "map fst kept = filter (\<lambda>n. case running s n of None \<Rightarrow> False | Some i \<Rightarrow> i \<in> set pool) [0..<m]"
    unfolding kept_def by (rule map_fst_kept)
  then have dk: "distinct (map fst kept)" and sk: "set (map fst kept) \<subseteq> {0..<m}"
    by auto
  have df: "distinct free" and sf: "set free \<subseteq> {0..<m} - set (map fst kept)"
    by (auto simp: free_def)
  have z: "map fst (zip free fresh) = take (min (length free) (length fresh)) free"
    by (rule map_fst_zip_take)
  from df have dz: "distinct (map fst (zip free fresh))"
    unfolding z by (rule distinct_take)
  have sz: "set (map fst (zip free fresh)) \<subseteq> set free"
    unfolding z by (rule set_take_subset)
  from dk dz sz sf sk show ?thesis
    unfolding asg by auto
qed

lemma sim_inv_advance:
  assumes inv: "sim_inv m js s"
    and ids: "distinct (map job_id js)"
    and later: "now s < t'"
    and rdy: "\<And>n i. (n, i) \<in> set asg \<Longrightarrow> \<exists>j \<in> set js. is_ready s j \<and> job_id j = i"
    and nodes: "distinct (map fst asg)" "set (map fst asg) \<subseteq> {0..<m}"
  shows "sim_inv m js (advance_to s asg t')"
proof -
  let ?s' = "advance_to s asg t'"
  from inv have A: "\<And>n i a b. (i, a, b) \<in> set (timeline s n) \<Longrightarrow> a < b \<and> b \<le> now s"
    and B: "\<And>n. sorted_wrt (\<lambda>(i, a, b) (i', a', b'). b' \<le> a) (timeline s n)"
    and C: "\<And>n i a b j p. (i, a, b) \<in> set (timeline s n) \<Longrightarrow> j \<in> set js \<Longrightarrow> job_id j = i \<Longrightarrow>
        p \<in> set (dependencies j) \<Longrightarrow>
        remaining s p \<le> 0 \<and> (\<forall>n' a' b'. (p, a', b') \<in> set (timeline s n') \<longrightarrow> b' \<le> a)"
    and D: "\<And>i. remaining s i < remaining (initial_sim js) i \<Longrightarrow>
        \<exists>n < m. \<exists>a b. (i, a, b) \<in> set (timeline s n)"
    unfolding sim_inv_def by blast+
  have now': "now ?s' = t'" by (simp add: advance_to_def)
  have rem: "remaining ?s' i \<le> remaining s i" for i
    using later by (simp add: advance_to_def)
  have same_job: "j = k" if "j \<in> set js" "k \<in> set js" "job_id j = job_id k" for j k
    using ids that by (meson distinct_map inj_onD)
  have idle: "(n, p) \<notin> set asg" if "remaining s p \<le> 0" for n p
    using rdy [of n p] that by (auto simp: is_ready_def)
  have old_p: "(p, a', b') \<in> set (timeline s n')"
    if "remaining s p \<le> 0" "(p, a', b') \<in> set (timeline ?s' n')" for p a' b' n'
    using timeline_advance [OF that(2)] idle [OF that(1)] by auto
  have A': "a < b \<and> b \<le> now ?s'" if "(i, a, b) \<in> set (timeline ?s' n)" for n i a b
    using timeline_advance [OF that] A later now' by force
  have B': "sorted_wrt (\<lambda>(i, a, b) (i', a', b'). b' \<le> a) (timeline ?s' n)" for n
  proof (cases "map_of asg n")
    case None
    with B [of n] show ?thesis by (simp add: advance_to_def)
  next
    case (Some i)
    have "sorted_wrt (\<lambda>(i, a, b) (i', a', b'). b' \<le> a) (record_run i (now s) t' (timeline s n))"
      using B [of n] A [of _ _ _ n] later by (intro sorted_record_run) auto
    with Some show ?thesis by (simp add: advance_to_def)
  qed
  have C': "remaining ?s' p \<le> 0 \<and>
        (\<forall>n' a' b'. (p, a', b') \<in> set (timeline ?s' n') \<longrightarrow> b' \<le> a)"
    if x: "(i, a, b) \<in> set (timeline ?s' n)" and j: "j \<in> set js" "job_id j = i"
      and p: "p \<in> set (dependencies j)" for n i a b j p
  proof -
    have done_p: "remaining s p \<le> 0 \<and> (\<forall>n' a' b'. (p, a', b') \<in> set (timeline s n') \<longrightarrow> b' \<le> a)"
    proof -
      from timeline_advance [OF x] consider
          (old) "(i, a, b) \<in> set (timeline s n)"
        | (fresh) "(n, i) \<in> set asg" "a = now s"
        | (more) "(n, i) \<in> set asg" "(i, a, now s) \<in> set (timeline s n)"
        by auto
      then show ?thesis
      proof cases
        case old
        from C [OF old j p] show ?thesis .
      next
        case fresh
        from rdy [OF fresh(1)] obtain k where k: "k \<in> set js" "is_ready s k" "job_id k = i"
          by blast
        with j same_job have "k = j" by simp
        with k p have "remaining s p \<le> 0" by (simp add: is_ready_def)
        moreover have "b' \<le> a" if "(p, a', b') \<in> set (timeline s n')" for n' a' b'
          using A [OF that] fresh(2) by simp
        ultimately show ?thesis by blast
      next
        case more
        from C [OF more(2) j p] show ?thesis .
      qed
    qed
    then have "remaining ?s' p \<le> 0" using rem [of p] by linarith
    moreover have "b' \<le> a" if "(p, a', b') \<in> set (timeline ?s' n')" for n' a' b'
      using old_p [OF _ that] done_p by blast
    ultimately show ?thesis by blast
  qed
  have D': "\<exists>n < m. \<exists>a b. (i, a, b) \<in> set (timeline ?s' n)"
    if less: "remaining ?s' i < remaining (initial_sim js) i" for i
  proof (cases "i \<in> set (map snd asg)")
    case True
    then obtain n where n: "(n, i) \<in> set asg" by auto
    with nodes have "n < m" and "map_of asg n = Some i" by force+
    then have tl: "timeline ?s' n = record_run i (now s) t' (timeline s n)"
      by (simp add: advance_to_def)
    from record_run_head [of i t' "now s" "timeline s n"]
    obtain a where "(i, a, t') \<in> set (record_run i (now s) t' (timeline s n))" ..
    then have "(i, a, t') \<in> set (timeline ?s' n)"
      unfolding tl .
    with \<open>n < m\<close> show ?thesis by blast
  next
    case False
    with less have "remaining s i < remaining (initial_sim js) i"
      by (simp add: advance_to_def)
    from D [OF this] obtain n a b where n: "n < m" "(i, a, b) \<in> set (timeline s n)"
      by blast
    have "(i, a, b) \<in> set (timeline ?s' n)"
    proof (cases "map_of asg n")
      case None
      with n show ?thesis by (simp add: advance_to_def)
    next
      case (Some i')
      then have "(n, i') \<in> set asg" by (rule map_of_SomeD)
      with False have "i \<noteq> i'" by force
      with n(2) have "(i, a, b) \<in> set (record_run i' (now s) t' (timeline s n))"
        by (rule record_run_keeps)
      with Some show ?thesis by (simp add: advance_to_def)
    qed
    with n(1) show ?thesis by blast
  qed
  show ?thesis
    unfolding sim_inv_def using A' B' C' D' by blast
qed

lemma next_event_later:
  assumes "next_event js s asg = Some t'"
    and "\<And>n i. (n, i) \<in> set asg \<Longrightarrow> 0 < remaining s i"
  shows "now s < t'"
proof -
  define cands where "cands = map arrival (filter (\<lambda>j. now s < arrival j) js) @
           map (\<lambda>(n, i). now s + remaining s i) asg"
  from assms(1) obtain t ts where c: "cands = t # ts" and t': "t' = fold min ts t"
    by (auto simp: next_event_def cands_def split: list.splits)
  from fold_min_in [of ts t] have "t' \<in> set cands" unfolding c t' .
  with assms(2) show ?thesis by (auto simp: cands_def)
qed

lemma sim_inv_step:
  assumes "sim_inv m js s" and "distinct (map job_id js)"
    and "event_step preemptive key m js s = Some s'"
  shows "sim_inv m js s'"
proof -
  define asg where "asg = assign_nodes preemptive key m js s"
  from assms(3) obtain t' where ne: "next_event js s asg = Some t'"
    and s': "s' = advance_to s asg t'"
    by (auto simp: event_step_def Let_def asg_def split: option.splits)
  have rdy: "\<exists>j \<in> set js. is_ready s j \<and> job_id j = i" if "(n, i) \<in> set asg" for n i
    using that unfolding asg_def by (rule assign_nodes_ready)
  then have "0 < remaining s i" if "(n, i) \<in> set asg" for n i
    using that by (fastforce simp: is_ready_def)
  with ne have "now s < t'" by (rule next_event_later)
  moreover from assign_nodes_distinct [of preemptive key m js s]
  have "distinct (map fst asg)" and "set (map fst asg) \<subseteq> {0..<m}"
    unfolding asg_def by simp_all
  ultimately show ?thesis
    unfolding s' using assms(1,2) rdy by (intro sim_inv_advance)
qed

lemma sim_inv_simulate:
  "sim_inv m js s \<Longrightarrow> distinct (map job_id js) \<Longrightarrow> sim_inv m js (simulate preemptive key m js s)"
proof (induction preemptive key m js s rule: simulate.induct)
  case (1 preemptive key m js s)
  show ?case
  proof (cases "event_step preemptive key m js s")
    case None
    then have "simulate preemptive key m js s = s"
      by (simp add: simulate.simps [of preemptive key m js s])
    with "1.prems"(1) show ?thesis by simp
  next
    case (Some s')
    then have eq: "simulate preemptive key m js s = simulate preemptive key m js s'"
      by (simp add: simulate.simps [of preemptive key m js s])
    from "1.prems" Some have "sim_inv m js s'" by (rule sim_inv_step)
    from "1.IH" [OF Some this "1.prems"(2)] show ?thesis
      unfolding eq .
  qed
qed

lemma sim_inv_initial: "sim_inv m js (initial_sim js)"
  by (simp add: sim_inv_def initial_sim_def)

lemma chronological_rev:
  assumes "\<And>i a b. (i, a, b) \<in> set xs \<Longrightarrow> a < b"
    and "sorted_wrt (\<lambda>(i, a, b) (i', a', b'). b' \<le> a) xs"
  shows "chronological (rev xs)"
proof -
  let ?P = "\<lambda>(i::'a, a::int, b::int) (i'::'a, a'::int, b'::int). b \<le> a'"
  let ?Q = "\<lambda>(i::'a, a::int, b::int) (i'::'a, a'::int, b'::int). b' \<le> a"
  have flip: "(\<lambda>x y. ?P y x) = ?Q"
    by (auto simp: fun_eq_iff)
  have "sorted_wrt ?P (rev xs) = sorted_wrt (\<lambda>x y. ?P y x) xs"
    by (rule sorted_wrt_rev)
  with assms(2) have "sorted_wrt ?P (rev xs)"
    unfolding flip by simp
  moreover have "list_all (\<lambda>(i, a, b). a \<le> b) (rev xs)"
    using assms(1) by (fastforce simp: list_all_iff)
  ultimately show ?thesis by (simp add: chronological_def)
qed

lemma initial_sim_remaining:
  assumes "j \<in> set js" and "distinct (map job_id js)"
  shows "remaining (initial_sim js) (job_id j) = execution_time j"
proof -
  have "find (\<lambda>k. job_id k = job_id j) js = Some j"
    using assms
  proof (induction js)
    case Nil
    then show ?case by simp
  next
    case (Cons k js)
    then show ?case by (cases "job_id k = job_id j") force+
  qed
  then show ?thesis by (simp add: initial_sim_def)
qed

lemma event_simulation_sound:
  assumes ids: "distinct (map job_id js)"
    and known: "\<not> unknown_reference js"
    and timing: "\<not> invalid_timing js"
  shows "respects_precedence js (event_simulation preemptive key m js) \<and>
     list_all chronological (event_simulation preemptive key m js)"
proof -
  define final where "final = simulate preemptive key m js (initial_sim js)"
  define r where "r = event_simulation preemptive key m js"
  have r: "r = map (\<lambda>n. rev (timeline final n)) [0..<m]"
    by (simp add: r_def event_simulation_def final_def)
  have "sim_inv m js final"
    unfolding final_def using sim_inv_initial ids by (rule sim_inv_simulate)
  then have A: "\<And>n i a b. (i, a, b) \<in> set (timeline final n) \<Longrightarrow> a < b \<and> b \<le> now final"
    and B: "\<And>n. sorted_wrt (\<lambda>(i, a, b) (i', a', b'). b' \<le> a) (timeline final n)"
    and C: "\<And>n i a b j p. (i, a, b) \<in> set (timeline final n) \<Longrightarrow> j \<in> set js \<Longrightarrow> job_id j = i \<Longrightarrow>
        p \<in> set (dependencies j) \<Longrightarrow>
        remaining final p \<le> 0 \<and> (\<forall>n' a' b'. (p, a', b') \<in> set (timeline final n') \<longrightarrow> b' \<le> a)"
    and D: "\<And>i. remaining final i < remaining (initial_sim js) i \<Longrightarrow>
        \<exists>n < m. \<exists>a b. (i, a, b) \<in> set (timeline final n)"
    unfolding sim_inv_def by blast+
  have "chronological (rev (timeline final n))" for n
    using A [of _ _ _ n] B [of n] by (intro chronological_rev) auto
  then have 1: "list_all chronological r"
    unfolding r by (simp add: list_all_iff)
  have fin: "finished_by r p a"
    if x: "(i, a, b) \<in> set (timeline final n)" and j: "j \<in> set js" "job_id j = i"
      and p: "p \<in> set (dependencies j)" for n i a b j p
  proof -
    from C [OF x j p] have done_p: "remaining final p \<le> 0"
      and before: "\<And>n' a' b'. (p, a', b') \<in> set (timeline final n') \<Longrightarrow> b' \<le> a"
      by blast+
    from j(1) p have "(p, job_id j) \<in> set (edges js)"
      by (auto simp: edges_def)
    with known obtain k where k: "k \<in> set js" "job_id k = p"
      by (force simp: unknown_reference_def)
    with timing have "0 < execution_time k"
      by (force simp: invalid_timing_def)
    with initial_sim_remaining [OF k(1) ids] k(2) done_p
    have "remaining final p < remaining (initial_sim js) p" by simp
    from D [OF this] have "scheduled r p"
      unfolding scheduled_def r list_ex_iff by fastforce
    moreover have "list_all (list_all (\<lambda>(i, a', b'). i = p \<longrightarrow> b' \<le> a)) r"
      unfolding r list_all_iff using before by fastforce
    ultimately show ?thesis by (simp add: finished_by_def)
  qed
  have 2: "respects_precedence js r"
    unfolding respects_precedence_def list_all_iff
  proof (intro ballI)
    fix node x
    assume node: "node \<in> set r" and x: "x \<in> set node"
    obtain i a b where xe: "x = (i, a, b)" by (cases x)
    from node x obtain n where n: "(i, a, b) \<in> set (timeline final n)"
      unfolding r xe by auto
    have "finished_by r p a" if "j \<in> set js" "job_id j = i" "p \<in> set (dependencies j)" for j p
      using n that by (rule fin)
    then show "case x of (i, a, b) \<Rightarrow>
        \<forall>j \<in> set js. job_id j = i \<longrightarrow> (\<forall>p \<in> set (dependencies j). finished_by r p a)"
      unfolding xe by simp
  qed
  from 2 1 show ?thesis unfolding r_def ..
qed

lemma acyclic_edges: "\<not> has_cycle js \<Longrightarrow> acyclic (set (edges js))"
proof (rule acyclicI, rule allI, rule notI)
  fix x
  assume nc: "\<not> has_cycle js" and "(x, x) \<in> (set (edges js))\<^sup>+"
  then have "x \<in> Range (set (edges js))"
    by (metis Range_iff trancl_range)
  then have "x \<in> set (map job_id js)"
    by (auto simp: edges_def)
  with \<open>(x, x) \<in> (set (edges js))\<^sup>+\<close> nc show False
    unfolding has_cycle_def by blast
qed

lemma fold_later_deadline_best:
  "k \<in> set (r # rs) \<Longrightarrow>
     deadline k < deadline (fold later_deadline rs r) \<or>
     (deadline k = deadline (fold later_deadline rs r) \<and>
      job_id (fold later_deadline rs r) \<le> job_id k)"
proof (induction rs arbitrary: r k)
  case Nil
  then show ?case by simp
next
  case (Cons x rs)
  have best: "deadline r < deadline (later_deadline x r) \<or>
     (deadline r = deadline (later_deadline x r) \<and> job_id (later_deadline x r) \<le> job_id r)"
    by (auto simp: later_deadline_def)
  have bestx: "deadline x < deadline (later_deadline x r) \<or>
     (deadline x = deadline (later_deadline x r) \<and> job_id (later_deadline x r) \<le> job_id x)"
    by (auto simp: later_deadline_def)
  let ?b = "later_deadline x r"
  let ?f = "fold later_deadline rs ?b"
  from Cons.IH [of ?b ?b] have top: "deadline ?b < deadline ?f \<or>
     (deadline ?b = deadline ?f \<and> job_id ?f \<le> job_id ?b)"
    by simp
  from Cons.prems consider "k = r" | "k = x" | "k \<in> set rs" by auto
  then show ?case
  proof cases
    case 1
    with best top show ?thesis by auto
  next
    case 2
    with bestx top show ?thesis by auto
  next
    case 3
    with Cons.IH [of k ?b] show ?thesis by simp
  qed
qed

lemma ldf_pick_latest: "ldf_pick un = Some j \<Longrightarrow> latest_ready un j"
proof -
  assume a: "ldf_pick un = Some j"
  then obtain r rs where f: "filter (successors_assigned un) un = r # rs"
    and j: "j = fold later_deadline rs r"
    by (auto simp: ldf_pick_def split: list.splits)
  have "deadline k < deadline j \<or> (deadline k = deadline j \<and> job_id j \<le> job_id k)"
    if "k \<in> set un" "successors_assigned un k" for k
  proof -
    from that have "k \<in> set (r # rs)" unfolding f [symmetric] by simp
    then show ?thesis unfolding j by (rule fold_later_deadline_best)
  qed
  with ldf_pick_in [OF a] show ?thesis
    by (simp add: latest_ready_def)
qed

lemma ldf_pick_exists:
  assumes "un \<noteq> []" and "set un \<subseteq> set js" and "\<not> has_cycle js"
  shows "\<exists>j. ldf_pick un = Some j"
proof -
  let ?E = "set (edges js)"
  have "wf (?E\<inverse>)"
    using acyclic_edges [OF assms(3)] by (intro finite_acyclic_wf_converse) auto
  moreover from assms(1) have "job_id (hd un) \<in> job_id ` set un" by simp
  ultimately obtain z where z: "z \<in> job_id ` set un"
    and least: "\<And>y. (y, z) \<in> ?E\<inverse> \<Longrightarrow> y \<notin> job_id ` set un"
    by (rule wfE_min) blast
  from z obtain j where j: "j \<in> set un" "job_id j = z" by auto
  have "successors_assigned un j"
    unfolding successors_assigned_def
  proof (intro ballI notI)
    fix k assume k: "k \<in> set un" and dep: "job_id j \<in> set (dependencies k)"
    with assms(2) have "(z, job_id k) \<in> ?E"
      using j(2) by (auto simp: edges_def)
    then have "job_id k \<notin> job_id ` set un" using least by blast
    with k show False by simp
  qed
  with j(1) have "filter (successors_assigned un) un \<noteq> []"
    by (auto simp: filter_empty_conv)
  then show ?thesis
    by (auto simp: ldf_pick_def split: list.splits)
qed

lemma ldf_assign_mset:
  "set un \<subseteq> set js \<Longrightarrow> \<not> has_cycle js \<Longrightarrow>
     mset (ldf_assign un acc) = mset un + mset acc"
proof (induction un acc rule: ldf_assign.induct)
  case (1 un acc)
  show ?case
  proof (cases "ldf_pick un")
    case None
    then have eq: "ldf_assign un acc = acc"
      by (simp add: ldf_assign.simps [of un acc])
    from None ldf_pick_exists [OF _ "1.prems"] have "un = []" by fastforce
    with eq show ?thesis by simp
  next
    case (Some j)
    then have j: "j \<in> set un" by (simp add: ldf_pick_in)
    with "1.prems" have "set (remove1 j un) \<subseteq> set js"
      by (meson notin_set_remove1 subset_iff)
    from "1.IH" [OF Some this "1.prems"(2)] j Some show ?thesis
      by (simp add: ldf_assign.simps [of un acc])
  qed
qed

lemma ldf_assign_topological:
  "topological acc \<Longrightarrow> (\<forall>k \<in> set un. \<forall>b \<in> set acc. job_id b \<notin> set (dependencies k)) \<Longrightarrow>
     topological (ldf_assign un acc)"
proof (induction un acc rule: ldf_assign.induct)
  case (1 un acc)
  show ?case
  proof (cases "ldf_pick un")
    case None
    with "1.prems" show ?thesis by (simp add: ldf_assign.simps [of un acc])
  next
    case (Some j)
    then have j: "j \<in> set un" and sa: "successors_assigned un j"
      by (simp_all add: ldf_pick_in)
    have t: "topological (j # acc)"
      using "1.prems" j sa by (auto simp: topological_def successors_assigned_def)
    have "\<forall>k \<in> set (remove1 j un). \<forall>b \<in> set (j # acc). job_id b \<notin> set (dependencies k)"
      using "1.prems"(2) sa by (auto simp: successors_assigned_def dest: notin_set_remove1)
    from "1.IH" [OF Some t this] Some show ?thesis
      by (simp add: ldf_assign.simps [of un acc])
  qed
qed

lemma ldf_assign_run:
  "set un \<subseteq> set js \<Longrightarrow> \<not> has_cycle js \<Longrightarrow> ldf_run un acc (ldf_assign un acc)"
proof (induction un acc rule: ldf_assign.induct)
  case (1 un acc)
  show ?case
  proof (cases "ldf_pick un")
    case None
    then have eq: "ldf_assign un acc = acc"
      by (simp add: ldf_assign.simps [of un acc])
    from None ldf_pick_exists [OF _ "1.prems"] have "un = []" by fastforce
    with eq show ?thesis by (simp add: ldf_run.all_assigned)
  next
    case (Some j)
    then have j: "j \<in> set un" by (simp add: ldf_pick_in)
    with "1.prems" have "set (remove1 j un) \<subseteq> set js"
      by (meson notin_set_remove1 subset_iff)
    from "1.IH" [OF Some this "1.prems"(2)]
    have "ldf_run (remove1 j un) (j # acc) (ldf_assign (remove1 j un) (j # acc))" .
    with ldf_pick_latest [OF Some]
    have "ldf_run un acc (ldf_assign (remove1 j un) (j # acc))"
      by (rule ldf_run.assign_next)
    with Some show ?thesis by (simp add: ldf_assign.simps [of un acc])
  qed
qed

lemma distinct_map_remove1: "distinct (map f xs) \<Longrightarrow> distinct (map f (remove1 x xs))"
proof -
  assume "distinct (map f xs)"
  then have "distinct xs" and "inj_on f (set xs)" by (simp_all add: distinct_map)
  moreover have "set (remove1 x xs) \<subseteq> set xs" by (rule set_remove1_subset)
  ultimately show ?thesis
    by (simp add: distinct_map inj_on_subset)
qed

lemma latest_ready_unique:
  assumes "distinct (map job_id un)" and "latest_ready un j" and "latest_ready un k"
  shows "j = k"
proof -
  from assms(2,3) have "job_id j = job_id k"
    unfolding latest_ready_def by force
  moreover from assms(2,3) have "j \<in> set un" "k \<in> set un"
    by (simp_all add: latest_ready_def)
  ultimately show ?thesis
    using assms(1) by (meson distinct_map inj_onD)
qed

lemma ldf_run_deterministic:
  "ldf_run un acc order1 \<Longrightarrow> ldf_run un acc order2 \<Longrightarrow> distinct (map job_id un) \<Longrightarrow>
     order1 = order2"
proof (induction arbitrary: order2 rule: ldf_run.induct)
  case (all_assigned assigned)
  from all_assigned.prems(1) show ?case
    by (cases rule: ldf_run.cases) (auto simp: latest_ready_def)
next
  case (assign_next unassigned j assigned order)
  from assign_next.prems(1) show ?case
  proof (cases rule: ldf_run.cases)
    case all_assigned
    with assign_next.hyps(1) show ?thesis by (simp add: latest_ready_def)
  next
    case (assign_next k)
    from latest_ready_unique [OF \<open>distinct (map job_id unassigned)\<close> \<open>latest_ready unassigned j\<close> assign_next(1)]
    have "k = j" by simp
    moreover have "distinct (map job_id (remove1 j unassigned))"
      using \<open>distinct (map job_id unassigned)\<close> by (simp add: distinct_map_remove1)
    ultimately show ?thesis
      using assign_next(2) assign_next.IH by blast
  qed
qed

lemma dependency_walk_trancl: "dependency_walk es x zs y \<Longrightarrow> (x, y) \<in> (set es)\<^sup>+"
  by (induction zs arbitrary: x) (auto intro: trancl_into_trancl2)

lemma fold_max_ge: "(a::int) \<le> fold max xs a"
proof (induction xs arbitrary: a)
  case Nil
  show ?case by simp
next
  case (Cons x xs)
  have "a \<le> max x a" by simp
  also have "\<dots> \<le> fold max xs (max x a)" by (rule Cons.IH)
  finally show ?case by simp
qed

lemma fold_max_mem: "x \<in> set xs \<Longrightarrow> x \<le> fold max xs (a::int)"
proof (induction xs arbitrary: a)
  case Nil
  then show ?case by simp
next
  case (Cons y xs)
  show ?case
  proof (cases "x = y")
    case True
    have "x \<le> max y a" using True by simp
    also have "\<dots> \<le> fold max xs (max y a)" by (rule fold_max_ge)
    finally show ?thesis by simp
  next
    case False
    with Cons.prems have "x \<in> set xs" by simp
    from Cons.IH [OF this] show ?thesis by simp
  qed
qed

lemma back_to_back_ids: "map fst (back_to_back js previous finish) = map job_id js"
  by (induction js arbitrary: previous finish) (simp_all add: Let_def)

lemma back_to_back_after:
  "\<forall>j \<in> set js. 0 \<le> execution_time j \<Longrightarrow>
     (i, a, b) \<in> set (back_to_back js (Some f) finish) \<Longrightarrow> f \<le> a \<and> a \<le> b"
proof (induction js arbitrary: f finish)
  case Nil
  then show ?case by simp
next
  case (Cons j js)
  define bounds where "bounds = [f] @
     concat (map (\<lambda>p. case finish p of None \<Rightarrow> [] | Some f \<Rightarrow> [f]) (dependencies j))"
  define start where "start = fold max bounds (arrival j)"
  define stop where "stop = start + execution_time j"
  have r: "back_to_back (j # js) (Some f) finish =
      (job_id j, start, stop) # back_to_back js (Some stop) (finish(job_id j \<mapsto> stop))"
    by (simp add: Let_def bounds_def start_def stop_def)
  have 1: "f \<le> start" unfolding start_def by (rule fold_max_mem) (simp add: bounds_def)
  have 2: "start \<le> stop" using Cons.prems(1) by (simp add: stop_def)
  from Cons.prems(2) consider "(i, a, b) = (job_id j, start, stop)"
    | "(i, a, b) \<in> set (back_to_back js (Some stop) (finish(job_id j \<mapsto> stop)))"
    unfolding r by auto
  then show ?case
  proof cases
    case 1
    with \<open>f \<le> start\<close> 2 show ?thesis by simp
  next
    case 2
    from Cons.IH [OF _ this] Cons.prems(1) have "stop \<le> a \<and> a \<le> b" by simp
    with 1 \<open>start \<le> stop\<close> show ?thesis by linarith
  qed
qed

lemma back_to_back_chronological:
  "\<forall>j \<in> set js. 0 \<le> execution_time j \<Longrightarrow> chronological (back_to_back js previous finish)"
proof (induction js arbitrary: previous finish)
  case Nil
  show ?case by (simp add: chronological_def)
next
  case (Cons j js)
  define bounds where "bounds = (case previous of None \<Rightarrow> [] | Some f \<Rightarrow> [f]) @
     concat (map (\<lambda>p. case finish p of None \<Rightarrow> [] | Some f \<Rightarrow> [f]) (dependencies j))"
  define start where "start = fold max bounds (arrival j)"
  define stop where "stop = start + execution_time j"
  define rest where "rest = back_to_back js (Some stop) (finish(job_id j \<mapsto> stop))"
  have r: "back_to_back (j # js) previous finish = (job_id j, start, stop) # rest"
    by (simp add: Let_def bounds_def start_def stop_def rest_def)
  from Cons.prems have pos: "\<forall>j \<in> set js. 0 \<le> execution_time j" and "start \<le> stop"
    by (simp_all add: stop_def)
  from Cons.IH [OF pos] have "chronological rest" unfolding rest_def .
  moreover have "stop \<le> a" if "(i, a, b) \<in> set rest" for i a b
    using back_to_back_after [OF pos] that unfolding rest_def by blast
  ultimately show ?case
    unfolding r chronological_def using \<open>start \<le> stop\<close> by auto
qed

lemma back_to_back_precedence:
  assumes "topological js" and "distinct (map job_id js)"
    and "(i, a, b) \<in> set (back_to_back js previous finish)"
    and "j \<in> set js" and "job_id j = i" and "p \<in> set (dependencies j)"
  shows "(\<forall>f. finish p = Some f \<longrightarrow> p \<notin> job_id ` set js \<longrightarrow> f \<le> a) \<and>
     (\<forall>a' b'. (p, a', b') \<in> set (back_to_back js previous finish) \<longrightarrow> b' \<le> a)"
  using assms
proof (induction js arbitrary: previous finish)
  case Nil
  then show ?case by simp
next
  case (Cons j0 js)
  define bounds where "bounds = (case previous of None \<Rightarrow> [] | Some f \<Rightarrow> [f]) @
     concat (map (\<lambda>p. case finish p of None \<Rightarrow> [] | Some f \<Rightarrow> [f]) (dependencies j0))"
  define start where "start = fold max bounds (arrival j0)"
  define stop where "stop = start + execution_time j0"
  define finish' where "finish' = finish(job_id j0 \<mapsto> stop)"
  define rest where "rest = back_to_back js (Some stop) finish'"
  have r: "back_to_back (j0 # js) previous finish = (job_id j0, start, stop) # rest"
    by (simp add: Let_def bounds_def start_def stop_def rest_def finish'_def)
  have ids: "fst ` set rest = job_id ` set js"
    using back_to_back_ids [of js "Some stop" finish'] unfolding rest_def
    by (metis list.set_map)
  from Cons.prems(1) have topo: "topological js"
    and no_self: "job_id j0 \<notin> set (dependencies j0)"
    and no_later: "\<And>k. k \<in> set js \<Longrightarrow> job_id k \<notin> set (dependencies j0)"
    by (auto simp: topological_def)
  from Cons.prems(2) have dist: "distinct (map job_id js)"
    and fresh: "job_id j0 \<notin> job_id ` set js"
    by simp_all
  show ?case
  proof (cases "(i, a, b) \<in> set rest")
    case False
    with Cons.prems(3) have head: "i = job_id j0" "a = start"
      unfolding r by simp_all
    have "j = j0"
    proof (rule ccontr)
      assume "j \<noteq> j0"
      with Cons.prems(4) have "j \<in> set js" by simp
      then have "job_id j \<in> job_id ` set js" by (rule imageI)
      with Cons.prems(5) head(1) fresh show False by simp
    qed
    with Cons.prems(6) have p: "p \<in> set (dependencies j0)" by simp
    have "f \<le> a" if "finish p = Some f" for f
      unfolding head(2) start_def
      by (rule fold_max_mem) (use that p in \<open>force simp: bounds_def\<close>)
    moreover have "p \<noteq> job_id j0" using p no_self by blast
    moreover have "(p, a', b') \<notin> set rest" for a' b'
    proof
      assume "(p, a', b') \<in> set rest"
      then have "p \<in> fst ` set rest" by force
      with ids obtain k where "k \<in> set js" "job_id k = p" by auto
      with no_later p show False by blast
    qed
    ultimately show ?thesis unfolding r by auto
  next
    case True
    then have "i \<in> fst ` set rest" by force
    with ids have "i \<in> job_id ` set js" by simp
    with fresh have "i \<noteq> job_id j0" by metis
    with Cons.prems(4,5) have j: "j \<in> set js" by auto
    from Cons.IH [OF topo dist True [unfolded rest_def] j Cons.prems(5,6)]
    have 1: "\<And>f. finish' p = Some f \<Longrightarrow> p \<notin> job_id ` set js \<Longrightarrow> f \<le> a"
      and 2: "\<And>a' b'. (p, a', b') \<in> set rest \<Longrightarrow> b' \<le> a"
      unfolding rest_def by blast+
    have "f \<le> a" if "finish p = Some f" "p \<notin> job_id ` set (j0 # js)" for f
      using 1 [of f] that by (simp add: finish'_def)
    moreover have "b' \<le> a" if "(p, a', b') \<in> set ((job_id j0, start, stop) # rest)" for a' b'
    proof (cases "(p, a', b') \<in> set rest")
      case True
      then show ?thesis by (rule 2)
    next
      case False
      with that have "p = job_id j0" "b' = stop" by simp_all
      with 1 [of stop] fresh show ?thesis by (simp add: finish'_def)
    qed
    ultimately show ?thesis unfolding r by blast
  qed
qed

lemma ldf_single_node_sound:
  assumes ids: "distinct (map job_id js)"
    and dag: "\<not> has_cycle js"
    and known: "\<not> unknown_reference js"
    and timing: "\<not> invalid_timing js"
  shows "respects_precedence js (ldf_single_node js) \<and>
     list_all chronological (ldf_single_node js)"
proof -
  define order where "order = ldf_priority js"
  define node where "node = back_to_back order None Map.empty"
  have r: "ldf_single_node js = [node]"
    by (simp add: ldf_single_node_def node_def order_def)
  have "mset order = mset js"
    unfolding order_def ldf_priority_def using ldf_assign_mset [of js js "[]"] dag by simp
  then have same: "set order = set js" and "mset (map job_id order) = mset (map job_id js)"
    by (auto dest: mset_eq_setD)
  then have dist: "distinct (map job_id order)"
    using ids by (metis mset_eq_imp_distinct_iff)
  have topo: "topological order"
    unfolding order_def ldf_priority_def
    by (rule ldf_assign_topological) (simp_all add: topological_def)
  from timing same have pos: "\<forall>j \<in> set order. 0 \<le> execution_time j"
    by (force simp: invalid_timing_def)
  then have 1: "list_all chronological (ldf_single_node js)"
    unfolding r node_def by (simp add: back_to_back_chronological)
  have names: "fst ` set node = job_id ` set js"
    using back_to_back_ids [of order None Map.empty] same unfolding node_def
    by (metis list.set_map)
  have 2: "respects_precedence js (ldf_single_node js)"
    unfolding respects_precedence_def list_all_iff r
  proof (intro ballI)
    fix nd x
    assume "nd \<in> set [node]" and x: "x \<in> set nd"
    then have nd: "nd = node" by simp
    obtain i a b where xe: "x = (i, a, b)" by (cases x)
    have "finished_by [node] p a"
      if j: "j \<in> set js" "job_id j = i" and p: "p \<in> set (dependencies j)" for j p
    proof -
      from j(1) p have "(p, job_id j) \<in> set (edges js)"
        by (auto simp: edges_def)
      with known have "p \<in> job_id ` set js"
        by (force simp: unknown_reference_def)
      with names have "scheduled [node] p"
        by (force simp: scheduled_def list_ex_iff)
      moreover from x j(1) same
        back_to_back_precedence [OF topo dist _ _ j(2) p, of a b None Map.empty]
      have "\<And>a' b'. (p, a', b') \<in> set node \<Longrightarrow> b' \<le> a"
        unfolding nd xe node_def by blast
      then have "list_all (list_all (\<lambda>(i, a', b'). i = p \<longrightarrow> b' \<le> a)) [node]"
        by (auto simp: list_all_iff)
      ultimately show ?thesis by (simp add: finished_by_def)
    qed
    then show "case x of (i, a, b) \<Rightarrow>
        \<forall>j \<in> set js. job_id j = i \<longrightarrow> (\<forall>p \<in> set (dependencies j). finished_by [node] p a)"
      unfolding xe by simp
  qed
  from 2 1 show ?thesis ..
qed

lemma demo_jobs_distinct: "distinct (map job_id demo_jobs)"
  by code_simp

lemma demo_jobs_valid: "validate_model demo_jobs = Inr demo_jobs"
  by code_simp

lemma demo_jobs_acyclic: "\<not> has_cycle demo_jobs"
  by code_simp

subsection \<open>Precedence and the order on each node\<close>

text \<open>
  Claim C4. Let the jobs have distinct identifiers and let the job set pass the validator.
  Then each of the six schedules (LDF, EDF and least laxity, on a single node and on \<open>m\<close>
  nodes) respects precedence: whenever an interval of a job starts, each predecessor of
  the job is scheduled and every interval of the predecessor has ended. And on every node
  the intervals are chronological: sorted by time and pairwise non-overlapping.
\<close>

theorem schedules_respect_precedence:
  assumes "distinct (map job_id js)" and "validate_model js = Inr js"
  shows "list_all (\<lambda>r. respects_precedence js r \<and> list_all chronological r)
     [ldf_single_node js, edf_single_node js, ll_single_node js,
      ldf_multinode_no_delay m js, edf_multinode_no_delay m js, ll_multinode_no_delay m js]"
proof -
  from assms(2) have dag: "\<not> has_cycle js" and known: "\<not> unknown_reference js"
    and timing: "\<not> invalid_timing js"
    by (simp_all add: validate_model_def split: if_splits)
  note sim = event_simulation_sound [OF assms(1) known timing]
  from ldf_single_node_sound [OF assms(1) dag known timing] sim show ?thesis
    unfolding edf_single_node_def ll_single_node_def ldf_multinode_no_delay_def
      edf_multinode_no_delay_def ll_multinode_no_delay_def
    by simp
qed

theorem schedules_respect_precedence_witness:
  "distinct (map job_id demo_jobs) \<and> validate_model demo_jobs = Inr demo_jobs \<and>
   list_all (\<lambda>r. respects_precedence demo_jobs r \<and> list_all chronological r)
     [ldf_single_node demo_jobs, edf_single_node demo_jobs, ll_single_node demo_jobs,
      ldf_multinode_no_delay 2 demo_jobs, edf_multinode_no_delay 2 demo_jobs,
      ll_multinode_no_delay 2 demo_jobs] \<and>
   ll_multinode_no_delay 2 demo_jobs =
     [[(''A'', 0, 3), (''B'', 3, 4), (''D'', 4, 6)], [(''D'', 1, 3), (''C'', 3, 4)]]"
proof -
  have "ll_multinode_no_delay 2 demo_jobs =
     [[(''A'', 0, 3), (''B'', 3, 4), (''D'', 4, 6)], [(''D'', 1, 3), (''C'', 3, 4)]]"
    by code_simp
  with demo_jobs_distinct demo_jobs_valid
    schedules_respect_precedence [OF demo_jobs_distinct demo_jobs_valid, of 2]
  show ?thesis by (intro conjI)
qed

subsection \<open>The EDF example\<close>

text \<open>
  Claim C6. On the two jobs A (arrival 0, execution time 2, deadline 5) and B (arrival 0,
  execution time 1, deadline 2), with no dependencies, the EDF single-node schedule runs B
  from 0 to 1 and then A from 1 to 3.
\<close>

theorem edf_single_node_example:
  "edf_single_node
     [\<lparr> job_id = ''A'', execution_time = 2, period = None, deadline = 5, arrival = 0, dependencies = [] \<rparr>,
      \<lparr> job_id = ''B'', execution_time = 1, period = None, deadline = 2, arrival = 0, dependencies = [] \<rparr>]
   = [[(''B'', 0, 1), (''A'', 1, 3)]]"
  by code_simp

text \<open>
  The least-laxity example of the specification (section 8), as a check of the model
  against the specification's own words: with A (arrival 0, execution time 3, deadline 4)
  and B (arrival 1, execution time 1, deadline 2), A starts at 0, B preempts it at 1 and
  runs from 1 to 2, and A resumes from 2 to 4.
\<close>

lemma ll_single_node_example:
  "ll_single_node
     [\<lparr> job_id = ''A'', execution_time = 3, period = None, deadline = 4, arrival = 0, dependencies = [] \<rparr>,
      \<lparr> job_id = ''B'', execution_time = 1, period = None, deadline = 2, arrival = 1, dependencies = [] \<rparr>]
   = [[(''A'', 0, 1), (''B'', 1, 2), (''A'', 2, 4)]]"
  by code_simp

subsection \<open>Cyclic job sets\<close>

text \<open>
  Claim C7. When the dependency edges of a job set contain a cycle (some identifier has a
  walk along the edges back to itself), the engine fails with \<open>CyclicDependency\<close>,
  whatever the scheduler is and whatever else is wrong with the job set: the scheduler
  contributes nothing and no schedule is returned.
\<close>

theorem cyclic_dependency_rejected:
  assumes "dependency_walk (edges js) i via i"
  shows "engine scheduler js = Inl CyclicDependency"
proof -
  from assms have loop: "(i, i) \<in> (set (edges js))\<^sup>+" by (rule dependency_walk_trancl)
  then have "i \<in> Range (set (edges js))"
    by (metis Range_iff trancl_range)
  then have "i \<in> set (map job_id js)"
    by (auto simp: edges_def)
  with loop have "has_cycle js"
    unfolding has_cycle_def by blast
  then show ?thesis
    by (simp add: engine_def validate_model_def)
qed

theorem cyclic_dependency_rejected_witness:
  "dependency_walk (edges cyclic_jobs) ''A'' [''B''] ''A'' \<and>
   engine (edf_multinode_no_delay 2) cyclic_jobs = Inl CyclicDependency \<and>
   engine ldf_single_node cyclic_jobs = Inl CyclicDependency"
proof -
  have w: "dependency_walk (edges cyclic_jobs) ''A'' [''B''] ''A''"
    by (simp add: edges_def cyclic_jobs_def)
  from w cyclic_dependency_rejected [OF w, of "edf_multinode_no_delay 2"]
    cyclic_dependency_rejected [OF w, of ldf_single_node]
  show ?thesis by (intro conjI)
qed

subsection \<open>LDF is deterministic\<close>

text \<open>
  Claim C8. For a job set with distinct identifiers, any two runs of the LDF priority
  assignment end with the same order, and hence with the same single-node schedule; and
  when the job set has no cycle, the order that \<open>ldf_priority\<close> computes is such a run.
\<close>

theorem ldf_priority_deterministic:
  assumes "distinct (map job_id js)"
  shows "(\<forall>order1 order2. ldf_run js [] order1 \<longrightarrow> ldf_run js [] order2 \<longrightarrow>
            order1 = order2 \<and>
            [back_to_back order1 None Map.empty] = [back_to_back order2 None Map.empty]) \<and>
         (\<not> has_cycle js \<longrightarrow> ldf_run js [] (ldf_priority js))"
proof (intro conjI allI impI)
  fix order1 order2
  assume runs: "ldf_run js [] order1" "ldf_run js [] order2"
  from runs assms show eq: "order1 = order2" by (rule ldf_run_deterministic)
  then show "[back_to_back order1 None Map.empty] = [back_to_back order2 None Map.empty]"
    by simp
next
  assume "\<not> has_cycle js"
  then show "ldf_run js [] (ldf_priority js)"
    unfolding ldf_priority_def by (intro ldf_assign_run) simp_all
qed

theorem ldf_priority_deterministic_witness:
  "distinct (map job_id demo_jobs) \<and> \<not> has_cycle demo_jobs \<and>
   ldf_run demo_jobs [] (ldf_priority demo_jobs) \<and>
   map job_id (ldf_priority demo_jobs) = [''A'', ''B'', ''C'', ''D'']"
proof -
  from ldf_priority_deterministic [OF demo_jobs_distinct]
  have "\<not> has_cycle demo_jobs \<longrightarrow> ldf_run demo_jobs [] (ldf_priority demo_jobs)"
    by (elim conjE)
  from this demo_jobs_acyclic have "ldf_run demo_jobs [] (ldf_priority demo_jobs)"
    by (rule mp)
  moreover have "map job_id (ldf_priority demo_jobs) = [''A'', ''B'', ''C'', ''D'']"
    by code_simp
  ultimately show ?thesis
    using demo_jobs_distinct demo_jobs_acyclic by (intro conjI)
qed

end
